theory Spec2Isabelle
  imports Main
begin

section \<open>The formly-field component (src/core/src/lib/components/formly.field.ts)\<close>

text \<open>
  The component \<open>FormlyField\<close> renders one field-configuration node: it instantiates the
  node's wrappers and its field type into view containers, tracks the component references
  it created, and wires observers and subscriptions. The model is a state-passing embedding:
  one record holds the component's own fields (\<open>this\<close>), the objects it shares by reference
  (nodes, controls), the host platform (view containers, component references) and a trace
  of the calls made to the collaborators. Objects are addressed by identifiers, so that two
  references to one node see each other's writes.
\<close>

subsection \<open>Values and objects\<close>

type_synonym handle = nat     \<comment> \<open>identity of a \<open>ComponentRef\<close>\<close>
type_synonym mount = nat      \<comment> \<open>identity of a \<open>ViewContainerRef\<close>\<close>
type_synonym node_ref = nat   \<comment> \<open>identity of a \<open>FormlyFieldConfigCache\<close> object\<close>
type_synonym control_ref = nat \<comment> \<open>identity of an \<open>AbstractControl\<close>\<close>
type_synonym sub_id = nat     \<comment> \<open>identity of an observer or a subscription\<close>

text \<open>JavaScript values as far as the component looks at them: numbers are integers here,
  objects are compared by identity, as \<open>===\<close> does.\<close>

datatype jsval = Undefined | Null | JBool bool | JNum int | JStr string | JObj nat

fun truthy :: "jsval \<Rightarrow> bool" where
  "truthy Undefined = False"
| "truthy Null = False"
| "truthy (JBool b) = b"
| "truthy (JNum n) = (n \<noteq> 0)"
| "truthy (JStr s) = (s \<noteq> [])"
| "truthy (JObj a) = True"

text \<open>An optional string property is truthy when it is present and not empty.\<close>

fun truthy_str :: "string option \<Rightarrow> bool" where
  "truthy_str None = False"
| "truthy_str (Some s) = (s \<noteq> [])"

datatype error =
    UnregisteredRendererError string   \<comment> \<open>\<open>getType\<close> or \<open>getWrapper\<close> found no entry\<close>
  | TypeError                          \<comment> \<open>a property read or a call on \<open>undefined\<close>\<close>

text \<open>What a lifecycle hook of a node returns: a plain value or an observable.\<close>

datatype hook_fn = ReturnsPlain | ReturnsObservable

record debounce_options =
  default_ms :: nat

record model_options =
  updateOn :: "string option"
  debounce :: "debounce_options option"

text \<open>The properties of a node that the component reads or writes. \<open>stored\<close> is the value
  behind the node's key in its model, which \<open>getFieldValue\<close> reads and \<open>assignFieldValue\<close>
  writes.\<close>

record fnode =
  f_type :: "string option"
  wrappers :: "string list option"
  f_componentRefs :: "handle list option"
  hooks :: "(string \<Rightarrow> hook_fn option) option"
  hide :: bool
  className :: "string option"
  key :: jsval
  fieldGroup :: "node_ref list option"
  formControl :: "control_ref option"
  modelOptions :: "model_options option"
  parsers :: "(jsval \<Rightarrow> jsval) list option"
  has_options :: bool
  stored :: jsval

record control =
  c_value :: jsval
  isFormControl :: bool
  c_fields :: "node_ref list option"

text \<open>The argument of an \<open>observe\<close> callback.\<close>

record 'a observe_change =
  currentValue :: "'a option"
  previousValue :: "'a option"
  firstChange :: bool

text \<open>The \<open>field\<close> entry of Angular's \<open>SimpleChanges\<close>.\<close>

record simple_change =
  sc_previousValue :: "node_ref option"
  sc_firstChange :: bool

record simple_changes =
  sc_field :: "simple_change option"

text \<open>A change stream, as the pipeline of rxjs operators that built it.\<close>

datatype pipeline =
    ValueChanges control_ref
  | DistinctUntilChanged pipeline
  | StartWith jsval pipeline
  | DebounceTime nat pipeline

text \<open>What is registered: observers on properties and subscriptions to streams.\<close>

datatype subscription =
    HostObserver node_ref string
  | WrapperObserver handle "node_ref option" "string list"
  | HookSubscription string node_ref
  | DeepObserver node_ref "string list"
  | FieldObserver node_ref "string list"
  | ValueSubscription node_ref control_ref pipeline

text \<open>The calls to the collaborators, in the order they are made.\<close>

datatype event =
    CreateComponent mount string handle
  | Clear mount
  | Detach mount "handle option"
  | Insert mount handle
  | DetectChanges handle
  | SetStyle string string
  | SetAttribute string "string option"
  | HookCalled string node_ref
  | PatchValue control_ref jsval
  | AssignFieldValue node_ref jsval
  | FieldChangesNext jsval node_ref string
  | Subscribe sub_id subscription
  | Unsubscribe sub_id

subsection \<open>The state\<close>

record world =
  \<comment> \<open>the component\<close>
  field :: "node_ref option"
  containerRef :: mount
  hostObservers :: "sub_id list"
  componentRefs :: "handle list"
  hooksObservers :: "sub_id list"
  valueChangesUnsubscribe :: "sub_id list"
  \<comment> \<open>the registry \<open>FormlyConfig\<close>\<close>
  types :: "string \<Rightarrow> string option"
  wrapper_registry :: "string \<Rightarrow> string option"
  \<comment> \<open>shared objects\<close>
  nodes :: "node_ref \<Rightarrow> fnode"
  controls :: "control_ref \<Rightarrow> control"
  \<comment> \<open>the host platform\<close>
  next_handle :: handle
  views :: "mount \<Rightarrow> handle list"
  destroyed :: "handle list"
  fieldComponent :: "handle \<Rightarrow> mount option"
  instance_field :: "handle \<Rightarrow> node_ref option"
  \<comment> \<open>observers and subscriptions\<close>
  next_sub :: sub_id
  subs :: "(sub_id \<times> subscription) list"
  \<comment> \<open>calls made so far\<close>
  trace :: "event list"

text \<open>\<open>fieldComponent s h\<close> is the inner mount point (\<open>instance.fieldComponent\<close>) that the wrapper
  instance with reference \<open>h\<close> exposes when the renderer registers its observer, or nothing
  when the instance has none then. \<open>views s c\<close> are the views a container holds, in order;
  the host view of a component is named by the component's reference.\<close>

definition emit :: "event \<Rightarrow> world \<Rightarrow> world" where
  "emit e s = s\<lparr>trace := trace s @ [e]\<rparr>"

subsection \<open>The collaborators\<close>

text \<open>Modelled from the spec: the registry \<open>FormlyConfig\<close> (services/formly.config) is not
  part of the sources. Section 6: \<open>resolveType(name)\<close> and \<open>resolveWrapper(name)\<close> return the
  registered component; a lookup failure signals \<open>UnregisteredRendererError\<close> naming the
  missing identifier.\<close>

definition getType :: "world \<Rightarrow> string \<Rightarrow> error + string" where
  "getType s name =
     (case types s name of None \<Rightarrow> Inl (UnregisteredRendererError name) | Some c \<Rightarrow> Inr c)"

definition getWrapper :: "world \<Rightarrow> string \<Rightarrow> error + string" where
  "getWrapper s name =
     (case wrapper_registry s name of
        None \<Rightarrow> Inl (UnregisteredRendererError name) | Some c \<Rightarrow> Inr c)"

text \<open>The host platform (Angular's \<open>ViewContainerRef\<close> and \<open>ComponentRef\<close>), at the interface
  of section 6. \<open>createComponent\<close> appends the host view of a new component to the container
  and returns its reference; references are numbered in the order of their creation.\<close>

definition createComponent :: "world \<Rightarrow> mount \<Rightarrow> string \<Rightarrow> handle \<times> world" where
  "createComponent s c component =
     (let h = next_handle s
      in (h, emit (CreateComponent c component h)
               (s\<lparr>next_handle := Suc h, views := (views s)(c := views s c @ [h])\<rparr>)))"

text \<open>The views below a container: the views it holds and, for every one of them that is
  the host view of a wrapper instance, the views below the inner mount point of that
  instance. The first argument bounds the depth of the nesting.\<close>

fun nested_views :: "nat \<Rightarrow> (mount \<Rightarrow> handle list) \<Rightarrow> (handle \<Rightarrow> mount option) \<Rightarrow> mount
    \<Rightarrow> handle list" where
  "nested_views 0 vs inner c = vs c"
| "nested_views (Suc k) vs inner c =
     vs c @ concat (map (\<lambda>h. case inner h of None \<Rightarrow> [] | Some m \<Rightarrow> nested_views k vs inner m)
                        (vs c))"

text \<open>\<open>clear\<close> empties the container and destroys its views, and with a view the views nested
  in it. A nesting is never deeper than the number of components created so far.\<close>

definition clear :: "world \<Rightarrow> mount \<Rightarrow> world" where
  "clear s c =
     emit (Clear c)
       (s\<lparr>destroyed := destroyed s @ nested_views (next_handle s) (views s) (fieldComponent s) c,
          views := (views s)(c := [])\<rparr>)"

text \<open>\<open>detach()\<close> without an index takes the last view out of the container and returns it,
  or returns null when the container is empty.\<close>

definition detach :: "world \<Rightarrow> mount \<Rightarrow> handle option \<times> world" where
  "detach s c =
     (case views s c of
        [] \<Rightarrow> (None, emit (Detach c None) s)
      | v # vs \<Rightarrow>
          (Some (last (v # vs)),
           emit (Detach c (Some (last (v # vs))))
             (s\<lparr>views := (views s)(c := butlast (v # vs))\<rparr>)))"

definition insert_view :: "world \<Rightarrow> mount \<Rightarrow> handle \<Rightarrow> world" where
  "insert_view s c v = emit (Insert c v) (s\<lparr>views := (views s)(c := views s c @ [v])\<rparr>)"

definition detectChanges :: "world \<Rightarrow> handle \<Rightarrow> world" where
  "detectChanges s ref = emit (DetectChanges ref) s"

text \<open>Registering an observer or a subscription gives it the next identifier; cancelling
  removes it, and cancelling again changes nothing.\<close>

definition subscribe :: "world \<Rightarrow> subscription \<Rightarrow> sub_id \<times> world" where
  "subscribe s d =
     (let i = next_sub s
      in (i, emit (Subscribe i d) (s\<lparr>next_sub := Suc i, subs := subs s @ [(i, d)]\<rparr>)))"

definition unsubscribe :: "world \<Rightarrow> sub_id \<Rightarrow> world" where
  "unsubscribe s i = emit (Unsubscribe i) (s\<lparr>subs := filter (\<lambda>p. fst p \<noteq> i) (subs s)\<rparr>)"

definition unsubscribe_all :: "world \<Rightarrow> sub_id list \<Rightarrow> world" where
  "unsubscribe_all s is = fold (\<lambda>i s'. unsubscribe s' i) is s"

subsection \<open>Tracking component references\<close>

definition set_componentRefs :: "world \<Rightarrow> node_ref \<Rightarrow> handle list \<Rightarrow> world" where
  "set_componentRefs s n refs =
     s\<lparr>nodes := (nodes s)(n := (nodes s n)\<lparr>f_componentRefs := Some refs\<rparr>)\<rparr>"

text \<open>\<open>resetRefs(field)\<close>, lines 153 to 163. A node that has a list keeps the references that
  this component does not hold; for a node without one, the list is defined on \<open>this.field\<close>,
  and \<open>defineHiddenProp\<close> throws when \<open>this.field\<close> is not an object.\<close>

definition resetRefs :: "world \<Rightarrow> node_ref option \<Rightarrow> error + world" where
  "resetRefs s fld =
     (case fld of
        None \<Rightarrow> Inr (s\<lparr>componentRefs := []\<rparr>)
      | Some n \<Rightarrow>
          (case f_componentRefs (nodes s n) of
             Some refs \<Rightarrow>
               Inr ((set_componentRefs s n
                      (filter (\<lambda>ref. ref \<notin> set (componentRefs s)) refs))\<lparr>componentRefs := []\<rparr>)
           | None \<Rightarrow>
               (case field s of
                  None \<Rightarrow> Inl TypeError
                | Some m \<Rightarrow> Inr ((set_componentRefs s m [])\<lparr>componentRefs := []\<rparr>))))"

text \<open>\<open>attachComponentRef(ref, field)\<close>, lines 127 to 131: \<open>field._componentRefs.push\<close> throws
  when the node or its list is undefined.\<close>

definition attachComponentRef :: "world \<Rightarrow> handle \<Rightarrow> node_ref option \<Rightarrow> error + world" where
  "attachComponentRef s ref f =
     (let s1 = s\<lparr>componentRefs := componentRefs s @ [ref]\<rparr>
      in case f of
           None \<Rightarrow> Inl TypeError
         | Some n \<Rightarrow>
             (case f_componentRefs (nodes s1 n) of
                None \<Rightarrow> Inl TypeError
              | Some refs \<Rightarrow>
                  Inr ((set_componentRefs s1 n (refs @ [ref]))
                         \<lparr>instance_field := (instance_field s1)(ref := Some n)\<rparr>)))"

subsection \<open>The field renderer\<close>

text \<open>Lines 75 to 78: a call on the component's own container first resets the references
  of \<open>this.field\<close> and clears the container.\<close>

definition reset_own_container :: "world \<Rightarrow> mount \<Rightarrow> error + world" where
  "reset_own_container s c =
     (if containerRef s = c
      then (case resetRefs s (field s) of
              Inl e \<Rightarrow> Inl e
            | Inr s1 \<Rightarrow> Inr (clear s1 (containerRef s1)))
      else Inr s)"

text \<open>Lines 98 to 102: without wrappers, a node with a type gets the component of its type.\<close>

definition renderType :: "world \<Rightarrow> mount \<Rightarrow> node_ref option \<Rightarrow> error + world" where
  "renderType s c f =
     (case f of
        None \<Rightarrow> Inr s
      | Some n \<Rightarrow>
          (if truthy_str (f_type (nodes s n))
           then (case getType s (the (f_type (nodes s n))) of
                   Inl e \<Rightarrow> Inl e
                 | Inr component \<Rightarrow>
                     (case createComponent s c component of
                        (ref, s1) \<Rightarrow> attachComponentRef s1 ref f))
           else Inr s))"

text \<open>Line 88, \<open>previousValue ? previousValue.detach() : null\<close>.\<close>

definition detach_previous :: "world \<Rightarrow> mount option \<Rightarrow> handle option \<times> world" where
  "detach_previous s prev = (case prev of None \<Rightarrow> (None, s) | Some p \<Rightarrow> detach s p)"

text \<open>Modelled from the spec: \<open>observe\<close> (utils) is not part of the sources. Section 4.1: the
  engine observes the instance's inner mount point property, and the observation at the
  initial attach is the first one; section 4.3 speaks of a first observation with the
  initial value. So registering the observer calls it once with the property's value at
  that moment, no previous value and \<open>firstChange\<close> true. The callback itself, lines 86 to 97,
  is \<open>fieldComponent_observer\<close>; it renders the rest of the wrappers into the inner mount
  point, so the two functions are mutually recursive, as in the source.\<close>

function (sequential)
  renderField :: "world \<Rightarrow> mount \<Rightarrow> node_ref option \<Rightarrow> string list option \<Rightarrow> error + world"
and fieldComponent_observer ::
  "world \<Rightarrow> handle \<Rightarrow> node_ref option \<Rightarrow> string list \<Rightarrow> mount observe_change \<Rightarrow> error + world"
where
  "renderField s c f None =
     (case reset_own_container s c of Inl e \<Rightarrow> Inl e | Inr s1 \<Rightarrow> renderType s1 c f)"
| "renderField s c f (Some []) =
     (case reset_own_container s c of Inl e \<Rightarrow> Inl e | Inr s1 \<Rightarrow> renderType s1 c f)"
| "renderField s c f (Some (wrapper # wps)) =
     (case reset_own_container s c of
        Inl e \<Rightarrow> Inl e
      | Inr s1 \<Rightarrow>
          (case getWrapper s1 wrapper of
             Inl e \<Rightarrow> Inl e
           | Inr component \<Rightarrow>
               (case createComponent s1 c component of
                  (ref, s2) \<Rightarrow>
                    (case attachComponentRef s2 ref f of
                       Inl e \<Rightarrow> Inl e
                     | Inr s3 \<Rightarrow>
                         (case subscribe s3 (WrapperObserver ref f wps) of
                            (i, s4) \<Rightarrow>
                              fieldComponent_observer s4 ref f wps
                                \<lparr>currentValue = fieldComponent s4 ref,
                                 previousValue = None, firstChange = True\<rparr>)))))"
| "fieldComponent_observer s ref f wps chg =
     (case currentValue chg of
        None \<Rightarrow> Inr s
      | Some cur \<Rightarrow>
          (case detach_previous s (previousValue chg) of
             (viewRef, s1) \<Rightarrow>
               (case (case viewRef of
                        None \<Rightarrow> renderField s1 cur f (Some wps)
                      | Some v \<Rightarrow>
                          (if v \<notin> set (destroyed s1) then Inr (insert_view s1 cur v)
                           else renderField s1 cur f (Some wps))) of
                  Inl e \<Rightarrow> Inl e
                | Inr s2 \<Rightarrow> Inr (if \<not> firstChange chg then detectChanges s2 ref else s2))))"
  by pat_completeness auto
termination
  by (relation "measure (\<lambda>x. case x of
          Inl (s, c, f, ws) \<Rightarrow> (case ws of None \<Rightarrow> 0 | Some l \<Rightarrow> 2 * length l)
        | Inr (s, ref, f, wps, chg) \<Rightarrow> 2 * length wps + 1)") auto

subsection \<open>Host bindings\<close>

text \<open>The two callbacks of \<open>renderHostBinding\<close>, lines 140 to 149.\<close>

definition hide_observer :: "world \<Rightarrow> bool observe_change \<Rightarrow> world" where
  "hide_observer s chg =
     (if \<not> firstChange chg \<or> (firstChange chg \<and> currentValue chg = Some True)
      then emit (SetStyle ''display'' (if currentValue chg = Some True then ''none'' else [])) s
      else s)"

definition className_observer :: "world \<Rightarrow> string observe_change \<Rightarrow> world" where
  "className_observer s chg =
     (if \<not> firstChange chg \<or> (firstChange chg \<and> truthy_str (currentValue chg))
      then emit (SetAttribute ''class'' (currentValue chg)) s
      else s)"

text \<open>\<open>renderHostBinding()\<close>, lines 133 to 151. Each \<open>observe\<close> registers its callback and
  calls it once with the property's value, as described for the wrapper observer above.\<close>

definition renderHostBinding :: "world \<Rightarrow> world" where
  "renderHostBinding s =
     (case field s of
        None \<Rightarrow> s
      | Some n \<Rightarrow>
          (let s1 = unsubscribe_all s (hostObservers s)
           in case subscribe s1 (HostObserver n ''hide'') of
                (i1, s2) \<Rightarrow>
                  (let s3 = hide_observer s2
                              \<lparr>currentValue = Some (hide (nodes s2 n)),
                               previousValue = None, firstChange = True\<rparr>
                   in case subscribe s3 (HostObserver n ''className'') of
                        (i2, s4) \<Rightarrow>
                          (let s5 = className_observer s4
                                      \<lparr>currentValue = className (nodes s4 n),
                                       previousValue = None, firstChange = True\<rparr>
                           in s5\<lparr>hostObservers := [i1, i2]\<rparr>))))"

subsection \<open>Value and structure wiring\<close>

text \<open>Modelled from the spec: \<open>getFieldValue\<close> and \<open>assignFieldValue\<close> (utils) are not part of
  the sources. Section 4.4: the value-read accessor reads the value off the node, the
  value-write accessor writes the value onto the node.\<close>

definition getFieldValue :: "world \<Rightarrow> node_ref \<Rightarrow> jsval" where
  "getFieldValue s n = stored (nodes s n)"

definition assignFieldValue :: "world \<Rightarrow> node_ref \<Rightarrow> jsval \<Rightarrow> world" where
  "assignFieldValue s n v =
     emit (AssignFieldValue n v) (s\<lparr>nodes := (nodes s)(n := (nodes s n)\<lparr>stored := v\<rparr>)\<rparr>)"

text \<open>\<open>control.patchValue(value, {emitEvent: false, onlySelf: true})\<close>: the control takes the
  value and emits nothing.\<close>

definition patchValue :: "world \<Rightarrow> control_ref \<Rightarrow> jsval \<Rightarrow> world" where
  "patchValue s c v =
     emit (PatchValue c v) (s\<lparr>controls := (controls s)(c := (controls s c)\<lparr>c_value := v\<rparr>)\<rparr>)"

text \<open>The callback of the subscription, lines 208 to 220. \<open>field.options.fieldChanges.next\<close>
  throws when the node has no options.\<close>

definition apply_parsers :: "(jsval \<Rightarrow> jsval) list option \<Rightarrow> jsval \<Rightarrow> jsval" where
  "apply_parsers ps v =
     (case ps of None \<Rightarrow> v | Some fs \<Rightarrow> fold (\<lambda>parserFn x. parserFn x) fs v)"

definition shared_control :: "control \<Rightarrow> bool" where
  "shared_control ctl =
     (isFormControl ctl \<and> (case c_fields ctl of None \<Rightarrow> False | Some fs \<Rightarrow> 1 < length fs))"

definition valueChanges_subscriber ::
  "world \<Rightarrow> node_ref \<Rightarrow> control_ref \<Rightarrow> jsval \<Rightarrow> error + world" where
  "valueChanges_subscriber s n c v =
     (let s1 = (if shared_control (controls s c) then patchValue s c v else s);
          v' = apply_parsers (parsers (nodes s1 n)) v;
          s2 = assignFieldValue s1 n v'
      in if has_options (nodes s2 n)
         then Inr (emit (FieldChangesNext v' n ''valueChanges'') s2)
         else Inl TypeError)"

fun deliver :: "world \<Rightarrow> node_ref \<Rightarrow> control_ref \<Rightarrow> jsval list \<Rightarrow> error + world" where
  "deliver s n c [] = Inr s"
| "deliver s n c (v # vs) =
     (case valueChanges_subscriber s n c v of
        Inl e \<Rightarrow> Inl e
      | Inr s1 \<Rightarrow> deliver s1 n c vs)"

text \<open>The stream that is subscribed, lines 197 to 206, from \<open>control.value\<close> and
  \<open>getFieldValue(field)\<close>.\<close>

definition debounce_applies :: "model_options \<Rightarrow> bool" where
  "debounce_applies mo =
     ((\<not> truthy_str (updateOn mo) \<or> updateOn mo = Some ''change'')
      \<and> (case debounce mo of None \<Rightarrow> False | Some d \<Rightarrow> 0 < default_ms d))"

definition valueChanges_pipeline ::
  "control_ref \<Rightarrow> jsval \<Rightarrow> jsval \<Rightarrow> model_options \<Rightarrow> pipeline" where
  "valueChanges_pipeline c control_value field_value mo =
     (let valueChanges0 = DistinctUntilChanged (ValueChanges c);
          valueChanges1 =
            (if control_value \<noteq> field_value
             then StartWith control_value valueChanges0 else valueChanges0)
      in if debounce_applies mo
         then DebounceTime (case debounce mo of None \<Rightarrow> 0 | Some d \<Rightarrow> default_ms d)
                (ValueChanges c)
         else valueChanges1)"

text \<open>The rxjs operators. A stream of the control is a list of emissions, each with the
  time it happens at. \<open>startWith\<close> emits its value at the moment of the subscription;
  \<open>distinctUntilChanged\<close> drops an emission equal to the one before it; \<open>debounceTime d\<close>
  holds an emission for \<open>d\<close> time units and drops it when the next one comes earlier.\<close>

fun initial_emissions :: "pipeline \<Rightarrow> jsval list" where
  "initial_emissions (ValueChanges c) = []"
| "initial_emissions (DistinctUntilChanged p) = remdups_adj (initial_emissions p)"
| "initial_emissions (StartWith v p) = v # initial_emissions p"
| "initial_emissions (DebounceTime d p) = []"

fun distinctUntilChanged :: "(nat \<times> jsval) list \<Rightarrow> (nat \<times> jsval) list" where
  "distinctUntilChanged [] = []"
| "distinctUntilChanged [x] = [x]"
| "distinctUntilChanged (x # y # xs) =
     (if snd x = snd y then distinctUntilChanged (x # xs)
      else x # distinctUntilChanged (y # xs))"

fun debounceTime :: "nat \<Rightarrow> (nat \<times> jsval) list \<Rightarrow> (nat \<times> jsval) list" where
  "debounceTime d [] = []"
| "debounceTime d [x] = [(fst x + d, snd x)]"
| "debounceTime d (x # y # xs) =
     (if fst y < fst x + d then debounceTime d (y # xs)
      else (fst x + d, snd x) # debounceTime d (y # xs))"

text \<open>What the subscriber receives after the subscription, from the emissions of the
  control.\<close>

fun emissions :: "pipeline \<Rightarrow> (nat \<times> jsval) list \<Rightarrow> (nat \<times> jsval) list" where
  "emissions (ValueChanges c) raw = raw"
| "emissions (DistinctUntilChanged p) raw = distinctUntilChanged (emissions p raw)"
| "emissions (StartWith v p) raw = emissions p raw"
| "emissions (DebounceTime d p) raw = debounceTime d (emissions p raw)"

text \<open>Emissions that follow each other faster than the interval \<open>d\<close>.\<close>

fun rapid :: "nat \<Rightarrow> (nat \<times> jsval) list \<Rightarrow> bool" where
  "rapid d [] = True"
| "rapid d [x] = True"
| "rapid d (x # y # xs) = (fst x \<le> fst y \<and> fst y < fst x + d \<and> rapid d (y # xs))"

text \<open>The three shallow observers of the loop, lines 186 to 193: the first call of each
  callback does nothing.\<close>

fun observe_paths :: "world \<Rightarrow> node_ref \<Rightarrow> string list list \<Rightarrow> sub_id list \<times> world" where
  "observe_paths s n [] = ([], s)"
| "observe_paths s n (path # paths) =
     (case subscribe s (FieldObserver n path) of
        (i, s1) \<Rightarrow> (case observe_paths s1 n paths of (is, s2) \<Rightarrow> (i # is, s2)))"

text \<open>\<open>fieldChanges(field)\<close>, lines 165 to 226. The result is the list of what the returned
  function cancels, with the new state. Modelled from the spec: \<open>observeDeep\<close> (utils) is not
  part of the sources; section 4.4 has it watch the structure, so it is one registration
  here. \<open>field.options.formState\<close>, \<open>control.valueChanges\<close> and the destructuring of
  \<open>field.modelOptions\<close> throw on \<open>undefined\<close>.\<close>

definition fieldChanges :: "world \<Rightarrow> node_ref option \<Rightarrow> error + (sub_id list \<times> world)" where
  "fieldChanges s fld =
     (let s0 = unsubscribe_all s (valueChangesUnsubscribe s)
      in case fld of
           None \<Rightarrow> Inr ([], s0)
         | Some n \<Rightarrow>
             (case subscribe s0 (DeepObserver n [''templateOptions'']) of
                (i1, s1) \<Rightarrow>
                  (if \<not> has_options (nodes s1 n) then Inl TypeError
                   else case subscribe s1 (DeepObserver n [''options'', ''formState'']) of
                     (i2, s2) \<Rightarrow>
                       (case observe_paths s2 n
                               [[''template''], [''fieldGroupClassName''],
                                [''validation'', ''show'']] of
                          (is, s3) \<Rightarrow>
                            (if truthy (key (nodes s3 n)) \<and> fieldGroup (nodes s3 n) = None
                             then (case formControl (nodes s3 n) of
                                     None \<Rightarrow> Inl TypeError
                                   | Some c \<Rightarrow>
                                       (case modelOptions (nodes s3 n) of
                                          None \<Rightarrow> Inl TypeError
                                        | Some mo \<Rightarrow>
                                            (let p = valueChanges_pipeline c (c_value (controls s3 c))
                                                       (getFieldValue s3 n) mo
                                             in case subscribe s3 (ValueSubscription n c p) of
                                                  (i, s4) \<Rightarrow>
                                                    (case deliver s4 n c (initial_emissions p) of
                                                       Inl e \<Rightarrow> Inl e
                                                     | Inr s5 \<Rightarrow>
                                                         Inr ([i1, i2] @ is @ [i], s5)))))
                             else Inr ([i1, i2] @ is, s3))))))"

subsection \<open>The hook dispatcher\<close>

text \<open>\<open>triggerHook(name, changes)\<close>, lines 105 to 125, statement by statement. Reading
  \<open>changes.field\<close> throws when \<open>changes\<close> is undefined. A hook is code of the application:
  the model records that it is called and whether it returns an observable, and takes the
  call to leave the component and the nodes as they are.\<close>

definition triggerHook_fieldChanges ::
  "world \<Rightarrow> string \<Rightarrow> simple_changes option \<Rightarrow> error + world" where
  "triggerHook_fieldChanges s name changes =
     (if name = ''onInit''
      then (case fieldChanges s (field s) of
              Inl e \<Rightarrow> Inl e
            | Inr (is, s1) \<Rightarrow> Inr (s1\<lparr>valueChangesUnsubscribe := is\<rparr>))
      else if name = ''onChanges''
      then (case changes of
              None \<Rightarrow> Inl TypeError
            | Some chs \<Rightarrow>
                (case sc_field chs of
                   None \<Rightarrow> Inr s
                 | Some chg \<Rightarrow>
                     (if \<not> sc_firstChange chg
                      then (case fieldChanges s (field s) of
                              Inl e \<Rightarrow> Inl e
                            | Inr (is, s1) \<Rightarrow> Inr (s1\<lparr>valueChangesUnsubscribe := is\<rparr>))
                      else Inr s)))
      else Inr s)"

definition triggerHook_hooks :: "world \<Rightarrow> string \<Rightarrow> simple_changes option \<Rightarrow> world" where
  "triggerHook_hooks s name changes =
     (case field s of
        None \<Rightarrow> s
      | Some n \<Rightarrow>
          (case hooks (nodes s n) of
             None \<Rightarrow> s
           | Some hs \<Rightarrow>
               (case hs name of
                  None \<Rightarrow> s
                | Some r \<Rightarrow>
                    (if (case changes of None \<Rightarrow> True | Some chs \<Rightarrow> sc_field chs \<noteq> None)
                     then (let s1 = emit (HookCalled name n) s
                           in if r = ReturnsObservable
                                 \<and> name \<in> set [''onInit'', ''afterContentInit'', ''afterViewInit'']
                              then (case subscribe s1 (HookSubscription name n) of
                                      (i, s2) \<Rightarrow> s2\<lparr>hooksObservers := hooksObservers s2 @ [i]\<rparr>)
                              else s1)
                     else s))))"

definition field_wrappers :: "world \<Rightarrow> string list option" where
  "field_wrappers s = (case field s of None \<Rightarrow> Some [] | Some n \<Rightarrow> wrappers (nodes s n))"

definition triggerHook_render ::
  "world \<Rightarrow> string \<Rightarrow> simple_changes option \<Rightarrow> error + world" where
  "triggerHook_render s name changes =
     (if name = ''onChanges''
      then (case changes of
              None \<Rightarrow> Inl TypeError
            | Some chs \<Rightarrow>
                (case sc_field chs of
                   None \<Rightarrow> Inr s
                 | Some chg \<Rightarrow>
                     (let s1 = renderHostBinding s
                      in case resetRefs s1 (sc_previousValue chg) of
                           Inl e \<Rightarrow> Inl e
                         | Inr s2 \<Rightarrow>
                             renderField s2 (containerRef s2) (field s2) (field_wrappers s2))))
      else Inr s)"

definition triggerHook :: "world \<Rightarrow> string \<Rightarrow> simple_changes option \<Rightarrow> error + world" where
  "triggerHook s name changes =
     (case triggerHook_fieldChanges s name changes of
        Inl e \<Rightarrow> Inl e
      | Inr s1 \<Rightarrow> triggerHook_render (triggerHook_hooks s1 name changes) name changes)"

definition ngOnInit :: "world \<Rightarrow> error + world" where
  "ngOnInit s = triggerHook s ''onInit'' None"

definition ngAfterContentInit :: "world \<Rightarrow> error + world" where
  "ngAfterContentInit s = triggerHook s ''afterContentInit'' None"

definition ngAfterViewInit :: "world \<Rightarrow> error + world" where
  "ngAfterViewInit s = triggerHook s ''afterViewInit'' None"



subsection \<open>Notions used by the properties\<close>

text \<open>The instantiations recorded in a trace: container, component and reference of every
  \<open>createComponent\<close>, in the order of the calls.\<close>

fun instantiations :: "event list \<Rightarrow> (mount \<times> string \<times> handle) list" where
  "instantiations [] = []"
| "instantiations (CreateComponent c component h # es) = (c, component, h) # instantiations es"
| "instantiations (e # es) = instantiations es"

text \<open>The forced change detections recorded in a trace.\<close>

fun detections :: "event list \<Rightarrow> handle list" where
  "detections [] = []"
| "detections (DetectChanges h # es) = h # detections es"
| "detections (e # es) = detections es"

definition rendered :: "error + world \<Rightarrow> (mount \<times> string \<times> handle) list option" where
  "rendered r = (case r of Inl e \<Rightarrow> None | Inr s \<Rightarrow> Some (instantiations (trace s)))"


definition and_then :: "error + world \<Rightarrow> (world \<Rightarrow> error + world) \<Rightarrow> error + world" where
  "and_then r k = (case r of Inl e \<Rightarrow> Inl e | Inr s \<Rightarrow> k s)"

text \<open>The writes onto nodes and the broadcasts recorded in a trace, and the streams of the
  value subscriptions that are registered.\<close>

fun assignments :: "event list \<Rightarrow> (node_ref \<times> jsval) list" where
  "assignments [] = []"
| "assignments (AssignFieldValue n v # es) = (n, v) # assignments es"
| "assignments (e # es) = assignments es"

fun broadcasts :: "event list \<Rightarrow> (jsval \<times> node_ref \<times> string) list" where
  "broadcasts [] = []"
| "broadcasts (FieldChangesNext v n k # es) = (v, n, k) # broadcasts es"
| "broadcasts (e # es) = broadcasts es"

fun pipelines :: "(sub_id \<times> subscription) list \<Rightarrow> pipeline list" where
  "pipelines [] = []"
| "pipelines ((i, ValueSubscription n c p) # xs) = p # pipelines xs"
| "pipelines (x # xs) = pipelines xs"

definition subscribed :: "error + (sub_id list \<times> world) \<Rightarrow> pipeline list option" where
  "subscribed r = (case r of Inl e \<Rightarrow> None | Inr (is, s) \<Rightarrow> Some (pipelines (subs s)))"

definition written :: "error + (sub_id list \<times> world) \<Rightarrow> (node_ref \<times> jsval) list option" where
  "written r = (case r of Inl e \<Rightarrow> None | Inr (is, s) \<Rightarrow> Some (assignments (trace s)))"

definition broadcast :: "error + (sub_id list \<times> world) \<Rightarrow> (jsval \<times> node_ref \<times> string) list option" where
  "broadcast r = (case r of Inl e \<Rightarrow> None | Inr (is, s) \<Rightarrow> Some (broadcasts (trace s)))"

definition stored_after :: "error + (sub_id list \<times> world) \<Rightarrow> node_ref \<Rightarrow> jsval option" where
  "stored_after r n = (case r of Inl e \<Rightarrow> None | Inr (is, s) \<Rightarrow> Some (stored (nodes s n)))"

text \<open>The references created between two states, oldest first: references are numbered in
  the order of their creation.\<close>

definition created :: "world \<Rightarrow> world \<Rightarrow> handle list" where
  "created s s' = [next_handle s ..< next_handle s']"


text \<open>The tracked list of a node as a render at container \<open>c\<close> finds it after the reset of
  lines 75 to 78.\<close>

definition pruned_refs :: "world \<Rightarrow> mount \<Rightarrow> node_ref \<Rightarrow> handle list" where
  "pruned_refs s c n =
     (case f_componentRefs (nodes s n) of
        None \<Rightarrow> []
      | Some refs \<Rightarrow>
          (if c = containerRef s \<and> field s = Some n
           then filter (\<lambda>ref. ref \<notin> set (componentRefs s)) refs else refs))"

text \<open>The visual tree that section 8 of the specification describes for a node: one
  instantiation per wrapper, the first into the given container and every next one into the
  inner mount point of the wrapper before it, and then the field type, if the node has one,
  into the inner mount point of the last wrapper. \<open>h\<close> is the reference that the first
  instantiation gets.\<close>

fun nested_chain ::
  "world \<Rightarrow> mount \<Rightarrow> handle \<Rightarrow> node_ref \<Rightarrow> string list \<Rightarrow> (mount \<times> string \<times> handle) list" where
  "nested_chain s c h n [] =
     (if truthy_str (f_type (nodes s n))
      then [(c, the (types s (the (f_type (nodes s n)))), h)] else [])"
| "nested_chain s c h n (w # ws) =
     (c, the (wrapper_registry s w), h)
       # nested_chain s (the (fieldComponent s h)) (Suc h) n ws"

text \<open>JavaScript's \<open>trim\<close> on a string of 8-bit characters, for the parser \<open>(v) => v.trim()\<close>
  of the example in section 8: the white space and the line terminators among these
  characters are removed from both ends. The example gives the parser strings; on a value
  that has no \<open>trim\<close> method the source throws, which a parser as a function on values does
  not show.\<close>

definition is_space :: "char \<Rightarrow> bool" where
  "is_space ch =
     (ch \<in> set [CHR '' '', CHR 0x09, CHR 0x0A, CHR 0x0B, CHR 0x0C, CHR 0x0D, CHR 0xA0])"

definition trim :: "string \<Rightarrow> string" where
  "trim str = rev (dropWhile is_space (rev (dropWhile is_space str)))"

definition trim_parser :: "jsval \<Rightarrow> jsval" where
  "trim_parser v = (case v of JStr str \<Rightarrow> JStr (trim str) | _ \<Rightarrow> v)"

text \<open>What the steps before the render leave alone: the component's node, its container and
  the wrapper sequences of the nodes.\<close>

definition same_component :: "world \<Rightarrow> world \<Rightarrow> bool" where
  "same_component s s' =
     (field s' = field s \<and> containerRef s' = containerRef s
      \<and> (\<forall>m. wrappers (nodes s' m) = wrappers (nodes s m)))"


text \<open>What the component has established and holds for cancellation: the host observers, the
  subscriptions to what hooks returned, and the value-change subscription chain.\<close>

definition established :: "world \<Rightarrow> sub_id list" where
  "established s = hostObservers s @ hooksObservers s @ valueChangesUnsubscribe s"

text \<open>The component holds, for cancellation, every registration other than the observers
  that \<open>renderField\<close> puts on wrapper instances (line 86 drops what \<open>observe\<close> returns).\<close>

fun is_wrapper_observer :: "subscription \<Rightarrow> bool" where
  "is_wrapper_observer (WrapperObserver h f wps) = True"
| "is_wrapper_observer d = False"

definition holds_registrations :: "world \<Rightarrow> bool" where
  "holds_registrations s =
     (\<forall>p\<in>set (subs s). is_wrapper_observer (snd p) \<or> fst p \<in> set (established s))"

text \<open>A step that registers nothing but observers on wrapper instances and leaves what the
  component holds.\<close>

definition only_wrapper_observers_added :: "world \<Rightarrow> world \<Rightarrow> bool" where
  "only_wrapper_observers_added a b =
     (established b = established a
      \<and> (\<forall>p\<in>set (subs b). p \<in> set (subs a) \<or> is_wrapper_observer (snd p)))"





subsection \<open>Example states\<close>

text \<open>The node \<open>{type: "input", key: "name"}\<close> of section 8, with the stored value \<open>"Ali"\<close>, a
  control whose value is \<open>"Al"\<close>, and one parser. The component renders node 0 into
  container 0; the wrapper instance with reference \<open>h\<close> exposes the inner mount point
  \<open>h + 1\<close>.\<close>

definition example_node :: fnode where
  "example_node =
     \<lparr>f_type = Some ''input'', wrappers = None, f_componentRefs = None, hooks = None,
      hide = False, className = None, key = JStr ''name'', fieldGroup = None,
      formControl = Some 0,
      modelOptions = Some \<lparr>updateOn = None, debounce = None\<rparr>,
      parsers = Some [trim_parser], has_options = True, stored = JStr ''Ali''\<rparr>"

definition example_control :: control where
  "example_control = \<lparr>c_value = JStr ''Al'', isFormControl = True, c_fields = None\<rparr>"

definition example_world :: world where
  "example_world =
     \<lparr>field = Some 0, containerRef = 0, hostObservers = [], componentRefs = [],
      hooksObservers = [], valueChangesUnsubscribe = [],
      types = (\<lambda>name. if name = ''input'' then Some ''InputType'' else None),
      wrapper_registry =
        (\<lambda>name. if name = ''panel'' then Some ''PanelWrapper''
                 else if name = ''form-field'' then Some ''FormFieldWrapper'' else None),
      nodes = (\<lambda>n. example_node), controls = (\<lambda>c. example_control),
      next_handle = 0, views = (\<lambda>m. []), destroyed = [],
      fieldComponent = (\<lambda>h. Some (Suc h)), instance_field = (\<lambda>h. None),
      next_sub = 0, subs = [], trace = []\<rparr>"



text \<open>The example node with a debounce interval of 300.\<close>

definition example_world_debounced :: world where
  "example_world_debounced =
     example_world\<lparr>nodes := (\<lambda>n. example_node
        \<lparr>modelOptions := Some \<lparr>updateOn = Some ''change'',
                                 debounce = Some \<lparr>default_ms = 300\<rparr>\<rparr>\<rparr>)\<rparr>"

text \<open>The example state with wrapper instances that expose no inner mount point when they
  are observed first.\<close>

definition example_world_no_inner :: world where
  "example_world_no_inner = example_world\<lparr>fieldComponent := (\<lambda>h. None)\<rparr>"


text \<open>The state in which the observer of a first wrapper is called: the wrapper instance
  has the reference 0 and is tracked, and its inner mount point is container 1.\<close>

definition example_world_wrapped :: world where
  "example_world_wrapped =
     example_world\<lparr>nodes := (\<lambda>n. example_node\<lparr>f_componentRefs := Some [0]\<rparr>),
                   componentRefs := [0], next_handle := 1\<rparr>"



section \<open>Properties\<close>

lemma instantiations_append [simp]:
  "instantiations (xs @ ys) = instantiations xs @ instantiations ys"
  by (induction xs rule: instantiations.induct) auto

subsection \<open>Helper facts about the renderer\<close>

lemma detections_append [simp]: "detections (xs @ ys) = detections xs @ detections ys"
  by (induction xs rule: detections.induct) auto

lemma detach_previous_None [simp]: "detach_previous s None = (None, s)"
  by (simp add: detach_previous_def)

text \<open>A relation between states that every step of the renderer respects holds between
  the state after the reset of a call and the state the call returns.\<close>

lemma renderField_Some_rel:
  assumes R_refl: "\<And>s. R s s"
    and R_trans: "\<And>a b c. R a b \<Longrightarrow> R b c \<Longrightarrow> R a c"
    and R_reset: "\<And>s c s1. reset_own_container s c = Inr s1 \<Longrightarrow> R s s1"
    and R_type: "\<And>s c s1. renderType s c f = Inr s1 \<Longrightarrow> R s s1"
    and R_wrap: "\<And>s c component ref s2 s3. createComponent s c component = (ref, s2)
                 \<Longrightarrow> attachComponentRef s2 ref f = Inr s3 \<Longrightarrow> R s s3"
    and R_sub: "\<And>s ref wps. R s (snd (subscribe s (WrapperObserver ref f wps)))"
  shows "renderField s c f (Some wps) = Inr s'
           \<Longrightarrow> \<exists>s1. reset_own_container s c = Inr s1 \<and> R s1 s'"
proof (induction wps arbitrary: s c s')
  case Nil
  then show ?case
    by (auto split: sum.splits intro: R_type)
next
  case (Cons w wps)
  from Cons.prems obtain s1 component ref s2 s3 i s4 where
    s1: "reset_own_container s c = Inr s1"
    and "getWrapper s1 w = Inr component"
    and s2: "createComponent s1 c component = (ref, s2)"
    and s3: "attachComponentRef s2 ref f = Inr s3"
    and s4: "subscribe s3 (WrapperObserver ref f wps) = (i, s4)"
    and obs: "fieldComponent_observer s4 ref f wps
                \<lparr>currentValue = fieldComponent s4 ref, previousValue = None,
                 firstChange = True\<rparr> = Inr s'"
    by (auto split: sum.splits prod.splits)
  have r13: "R s1 s3" using R_wrap [OF s2 s3] .
  have r34: "R s3 s4" using R_sub [of s3 ref wps] s4 by simp
  have r4: "R s4 s'"
  proof (cases "fieldComponent s4 ref")
    case None
    with obs show ?thesis by (simp add: R_refl)
  next
    case (Some m)
    with obs have "renderField s4 m f (Some wps) = Inr s'"
      by (auto split: sum.splits)
    from Cons.IH [OF this] obtain t where "reset_own_container s4 m = Inr t" "R t s'"
      by blast
    then show ?thesis using R_reset R_trans by blast
  qed
  show ?case using s1 r13 r34 r4 R_trans by blast
qed

subsection \<open>Rendering a node without wrappers\<close>

text \<open>
  Claim C1. For a node whose wrapper sequence is empty (undefined or the empty array) and
  whose type is set, one call of \<open>renderField\<close> instantiates exactly one component: the
  instantiations recorded after the call are those before it followed by one more, and
  that one is of the component which the registry gives for the node's type, created into
  the container of the call. Its reference is appended to the node's tracked list (the list
  as the reset at the start of the call leaves it), and the node is attached to the new
  instance. The call returns without an error when the type is registered and the node's
  tracked list exists or is created by the reset, which is the case for the component's
  own node on its own container.
\<close>

theorem renderField_type_only:
  assumes "ws = None \<or> ws = Some []"
    and "f_type (nodes s n) = Some ty" and "ty \<noteq> []"
    and "types s ty = Some component"
    and "c = containerRef s \<and> field s = Some n \<or> f_componentRefs (nodes s n) \<noteq> None"
  shows "\<exists>s'. renderField s c (Some n) ws = Inr s'
           \<and> instantiations (trace s') = instantiations (trace s) @ [(c, component, next_handle s)]
           \<and> next_handle s' = Suc (next_handle s)
           \<and> f_componentRefs (nodes s' n) = Some (pruned_refs s c n @ [next_handle s])
           \<and> instance_field s' (next_handle s) = Some n"
  using assms
  by (auto simp: reset_own_container_def resetRefs_def renderType_def getType_def
      createComponent_def attachComponentRef_def set_componentRefs_def emit_def clear_def
      pruned_refs_def Let_def split: option.splits)

theorem renderField_type_only_witness:
  "\<exists>s'. renderField example_world 0 (Some 0) None = Inr s'
     \<and> instantiations (trace s') = [(0, ''InputType'', 0)]
     \<and> next_handle s' = 1
     \<and> f_componentRefs (nodes s' 0) = Some [0]
     \<and> instance_field s' 0 = Some 0"
  using renderField_type_only [of None example_world 0 "''input''" "''InputType''" 0]
  by (simp add: example_world_def example_node_def pruned_refs_def)

subsection \<open>The observer of a wrapper's inner mount point\<close>

text \<open>
  Claim C10. When the observed inner mount point of a wrapper changes to a falsy value
  (null or undefined), the callback does nothing at all: it returns the state it was
  called in, so no view is detached from the previous inner mount point, nothing is
  rendered, no reference is created or released, and no change detection is forced,
  whatever the previous value and whether or not this is the first observation.
\<close>

theorem fieldComponent_observer_falsy:
  "fieldComponent_observer s ref f wps
     \<lparr>currentValue = None, previousValue = prev, firstChange = fc\<rparr> = Inr s"
  by simp

subsection \<open>What the steps of the renderer leave unchanged\<close>

lemma reset_own_container_frame:
  assumes "reset_own_container s c = Inr s1"
  shows "next_handle s1 = next_handle s"
    and "instantiations (trace s1) = instantiations (trace s)"
    and "detections (trace s1) = detections (trace s)"
    and "f_type (nodes s1 n) = f_type (nodes s n)"
  using assms
  by (auto simp: reset_own_container_def resetRefs_def set_componentRefs_def clear_def emit_def
      split: if_splits option.splits)

lemma renderType_frame:
  assumes "renderType s c f = Inr s1"
  shows "next_handle s \<le> next_handle s1"
    and "detections (trace s1) = detections (trace s)"
  using assms
  by (auto simp: renderType_def getType_def createComponent_def attachComponentRef_def
      set_componentRefs_def emit_def Let_def split: if_splits option.splits sum.splits)

lemma renderType_creates:
  assumes "renderType s c (Some n) = Inr s1" and "truthy_str (f_type (nodes s n))"
  shows "next_handle s < next_handle s1"
  using assms
  by (auto simp: renderType_def getType_def createComponent_def attachComponentRef_def
      set_componentRefs_def emit_def Let_def split: if_splits option.splits sum.splits)

lemma create_attach_frame:
  assumes "createComponent s c component = (ref, s2)" and "attachComponentRef s2 ref f = Inr s3"
  shows "next_handle s3 = Suc (next_handle s)"
    and "detections (trace s3) = detections (trace s)"
  using assms
  by (auto simp: createComponent_def attachComponentRef_def
      set_componentRefs_def emit_def Let_def split: if_splits option.splits sum.splits)

lemma subscribe_frame:
  "next_handle (snd (subscribe s d)) = next_handle s"
  "detections (trace (snd (subscribe s d))) = detections (trace s)"
  by (simp_all add: subscribe_def emit_def Let_def)

lemma renderField_next_handle_mono:
  assumes "renderField s c f (Some wps) = Inr s'"
  shows "next_handle s \<le> next_handle s'"
proof -
  have "\<exists>s1. reset_own_container s c = Inr s1 \<and> next_handle s1 \<le> next_handle s'"
    by (rule renderField_Some_rel [where R = "\<lambda>a b. next_handle a \<le> next_handle b", OF _ _ _ _ _ _ assms])
       (auto simp: reset_own_container_frame renderType_frame create_attach_frame subscribe_frame)
  then show ?thesis by (auto simp: reset_own_container_frame)
qed

lemma renderField_detections:
  assumes "renderField s c f (Some wps) = Inr s'"
  shows "detections (trace s') = detections (trace s)"
proof -
  have "\<exists>s1. reset_own_container s c = Inr s1 \<and> detections (trace s') = detections (trace s1)"
    by (rule renderField_Some_rel [where R = "\<lambda>a b. detections (trace b) = detections (trace a)", OF _ _ _ _ _ _ assms])
       (auto simp: reset_own_container_frame renderType_frame create_attach_frame subscribe_frame)
  then show ?thesis by (auto simp: reset_own_container_frame)
qed

lemma renderField_creates:
  assumes "renderField s c f (Some wps) = Inr s'"
    and "wps \<noteq> [] \<or> (\<exists>n. f = Some n \<and> truthy_str (f_type (nodes s n)))"
  shows "next_handle s < next_handle s'"
proof (cases wps)
  case Nil
  with assms show ?thesis
    by (auto split: sum.splits dest!: renderType_creates simp: reset_own_container_frame)
next
  case (Cons w ws)
  with assms(1) obtain s1 component ref s2 s3 i s4 where
    s1: "reset_own_container s c = Inr s1"
    and s2: "createComponent s1 c component = (ref, s2)"
    and s3: "attachComponentRef s2 ref f = Inr s3"
    and s4: "subscribe s3 (WrapperObserver ref f ws) = (i, s4)"
    and obs: "fieldComponent_observer s4 ref f ws
                \<lparr>currentValue = fieldComponent s4 ref, previousValue = None,
                 firstChange = True\<rparr> = Inr s'"
    by (auto split: sum.splits prod.splits)
  have "next_handle s4 = Suc (next_handle s)"
    using reset_own_container_frame(1) [OF s1] create_attach_frame(1) [OF s2 s3]
      subscribe_frame(1) [of s3 "WrapperObserver ref f ws"] s4 by simp
  moreover have "next_handle s4 \<le> next_handle s'"
    using obs by (cases "fieldComponent s4 ref") (auto split: sum.splits dest: renderField_next_handle_mono)
  ultimately show ?thesis by simp
qed

lemma renderField_trace_extends:
  assumes "renderField s c f (Some wps) = Inr s'"
  shows "\<exists>s1 rest. reset_own_container s c = Inr s1 \<and> trace s' = trace s1 @ rest"
proof -
  have "\<exists>s1. reset_own_container s c = Inr s1 \<and> (\<exists>rest. trace s' = trace s1 @ rest)"
    by (rule renderField_Some_rel [where R = "\<lambda>a b. \<exists>rest. trace b = trace a @ rest", OF _ _ _ _ _ _ assms])
       (auto simp: reset_own_container_def resetRefs_def set_componentRefs_def clear_def
          renderType_def getType_def createComponent_def attachComponentRef_def subscribe_def
          emit_def Let_def split: if_splits option.splits sum.splits)
  then show ?thesis by blast
qed

text \<open>The nested calls of a render are at inner mount points of wrapper instances, so a
  relation that the reset respects at such mount points only holds as well.\<close>

lemma renderField_Some_rel_inner:
  assumes R_refl: "\<And>s. R s s"
    and R_trans: "\<And>a b c. R a b \<Longrightarrow> R b c \<Longrightarrow> R a c"
    and R_reset: "\<And>s h m s1. fieldComponent s h = Some m
                    \<Longrightarrow> reset_own_container s m = Inr s1 \<Longrightarrow> R s s1"
    and R_type: "\<And>s c s1. renderType s c f = Inr s1 \<Longrightarrow> R s s1"
    and R_wrap: "\<And>s c component ref s2 s3. createComponent s c component = (ref, s2)
                 \<Longrightarrow> attachComponentRef s2 ref f = Inr s3 \<Longrightarrow> R s s3"
    and R_sub: "\<And>s ref wps. R s (snd (subscribe s (WrapperObserver ref f wps)))"
  shows "renderField s c f (Some wps) = Inr s'
           \<Longrightarrow> \<exists>s1. reset_own_container s c = Inr s1 \<and> R s1 s'"
proof (induction wps arbitrary: s c s')
  case Nil
  then show ?case
    by (auto split: sum.splits intro: R_type)
next
  case (Cons w wps)
  from Cons.prems obtain s1 component ref s2 s3 i s4 where
    s1: "reset_own_container s c = Inr s1"
    and "getWrapper s1 w = Inr component"
    and s2: "createComponent s1 c component = (ref, s2)"
    and s3: "attachComponentRef s2 ref f = Inr s3"
    and s4: "subscribe s3 (WrapperObserver ref f wps) = (i, s4)"
    and obs: "fieldComponent_observer s4 ref f wps
                \<lparr>currentValue = fieldComponent s4 ref, previousValue = None,
                 firstChange = True\<rparr> = Inr s'"
    by (auto split: sum.splits prod.splits)
  have r13: "R s1 s3" using R_wrap [OF s2 s3] .
  have r34: "R s3 s4" using R_sub [of s3 ref wps] s4 by simp
  have r4: "R s4 s'"
  proof (cases "fieldComponent s4 ref")
    case None
    with obs show ?thesis by (simp add: R_refl)
  next
    case (Some m)
    with obs have "renderField s4 m f (Some wps) = Inr s'"
      by (auto split: sum.splits)
    from Cons.IH [OF this] obtain t where "reset_own_container s4 m = Inr t" "R t s'"
      by blast
    then show ?thesis using R_reset [OF Some] R_trans by blast
  qed
  show ?case using s1 r13 r34 r4 R_trans by blast
qed

lemma upt_chain: "a \<le> b \<Longrightarrow> b \<le> c \<Longrightarrow> [a..<b] @ [b..<c] = [a..<(c::nat)]"
  by (metis le_Suc_ex upt_add_eq_append)

lemma create_attach_result:
  assumes "createComponent s c component = (ref, s2)" and "attachComponentRef s2 ref f = Inr s3"
  shows "ref = next_handle s" and "next_handle s3 = Suc (next_handle s)"
    and "instantiations (trace s3) = instantiations (trace s) @ [(c, component, next_handle s)]"
    and "instance_field s3 = (instance_field s)(next_handle s := f)"
  using assms
  by (auto simp: createComponent_def attachComponentRef_def
      set_componentRefs_def emit_def Let_def split: option.splits)

lemma renderType_result:
  assumes "renderType s c f = Inr s1"
  shows "s1 = s \<or> (\<exists>component s2. createComponent s c component = (next_handle s, s2)
                    \<and> attachComponentRef s2 (next_handle s) f = Inr s1)"
  using assms
  by (auto simp: renderType_def createComponent_def Let_def
          split: if_splits option.splits sum.splits)


lemma created_step:
  assumes "next_handle b = Suc (next_handle a)"
    and "instantiations (trace b) = instantiations (trace a) @ [(c, component, next_handle a)]"
    and "instance_field b = (instance_field a)(next_handle a := f)"
  shows "next_handle a \<le> next_handle b
       \<and> map (snd \<circ> snd) (instantiations (trace b))
           = map (snd \<circ> snd) (instantiations (trace a)) @ created a b
       \<and> (\<forall>h<next_handle a. instance_field b h = instance_field a h)
       \<and> (\<forall>h\<in>set (created a b). instance_field b h = f)"
  using assms by (simp add: created_def)

text \<open>The references of the instantiations of a render are the references it created.\<close>

lemma renderField_created:
  assumes "renderField s c f (Some wps) = Inr s'"
  shows "next_handle s \<le> next_handle s'
       \<and> map (snd \<circ> snd) (instantiations (trace s'))
           = map (snd \<circ> snd) (instantiations (trace s)) @ created s s'
       \<and> (\<forall>h<next_handle s. instance_field s' h = instance_field s h)
       \<and> (\<forall>h\<in>set (created s s'). instance_field s' h = f)"
proof -
  let ?R = "\<lambda>a b. next_handle a \<le> next_handle b
       \<and> map (snd \<circ> snd) (instantiations (trace b))
           = map (snd \<circ> snd) (instantiations (trace a)) @ created a b
       \<and> (\<forall>h<next_handle a. instance_field b h = instance_field a h)
       \<and> (\<forall>h\<in>set (created a b). instance_field b h = f)"
  have "\<exists>s1. reset_own_container s c = Inr s1 \<and> ?R s1 s'"
  proof (rule renderField_Some_rel [where R = ?R, OF _ _ _ _ _ _ assms])
    show "\<And>s. ?R s s" by (simp add: created_def)
  next
    fix a b c assume ab: "?R a b" and bc: "?R b c"
    have le: "next_handle a \<le> next_handle b" "next_handle b \<le> next_handle c"
      using ab bc by simp_all
    have m: "map (snd \<circ> snd) (instantiations (trace c))
           = map (snd \<circ> snd) (instantiations (trace a)) @ created a c"
      using ab bc upt_chain [OF le] by (simp add: created_def)
    have old: "\<forall>h<next_handle a. instance_field c h = instance_field a h"
      using ab bc le by simp
    have new: "\<forall>h\<in>set (created a c). instance_field c h = f"
    proof
      fix h assume "h \<in> set (created a c)"
      then have h: "next_handle a \<le> h" "h < next_handle c" by (simp_all add: created_def)
      show "instance_field c h = f"
      proof (cases "h < next_handle b")
        case True
        then have "instance_field c h = instance_field b h" using bc by simp
        moreover have "h \<in> set (created a b)" using h True by (simp add: created_def)
        ultimately show ?thesis using ab by simp
      next
        case False
        then have "h \<in> set (created b c)" using h by (simp add: created_def)
        then show ?thesis using bc by simp
      qed
    qed
    show "?R a c" using le m old new by simp
  next
    fix s c s1 assume "reset_own_container s c = Inr s1"
    then have "next_handle s1 = next_handle s" "instantiations (trace s1) = instantiations (trace s)"
      "instance_field s1 = instance_field s"
      by (auto simp: reset_own_container_def resetRefs_def set_componentRefs_def
          clear_def emit_def split: if_splits option.splits)
    then show "?R s s1" by (simp add: created_def)
  next
    fix s c s1 assume "renderType s c f = Inr s1"
    from renderType_result [OF this] show "?R s s1"
    proof (elim disjE exE conjE)
      assume "s1 = s"
      then show ?thesis by (simp add: created_def)
    next
      fix component s2
      assume "createComponent s c component = (next_handle s, s2)"
        "attachComponentRef s2 (next_handle s) f = Inr s1"
      from create_attach_result(2-4) [OF this] show ?thesis by (rule created_step)
    qed
  next
    fix s c component ref s2 s3
    assume "createComponent s c component = (ref, s2)" "attachComponentRef s2 ref f = Inr s3"
    from create_attach_result(2-4) [OF this] show "?R s s3" by (rule created_step)
  next
    fix s ref wps
    show "?R s (snd (subscribe s (WrapperObserver ref f wps)))"
      by (simp add: created_def subscribe_def emit_def Let_def)
  qed
  then obtain s1 where s1: "reset_own_container s c = Inr s1" and R: "?R s1 s'" by blast
  from s1 have "next_handle s1 = next_handle s" "instantiations (trace s1) = instantiations (trace s)"
      "instance_field s1 = instance_field s"
      by (auto simp: reset_own_container_def resetRefs_def set_componentRefs_def
          clear_def emit_def split: if_splits option.splits)
  with R show ?thesis by (simp add: created_def)
qed


lemma create_attach_tracks:
  assumes "createComponent s c component = (ref, s2)" and "attachComponentRef s2 ref f = Inr s3"
  shows "fieldComponent s3 = fieldComponent s" and "containerRef s3 = containerRef s"
    and "next_handle s3 = Suc (next_handle s)"
    and "componentRefs s3 = componentRefs s @ [next_handle s]"
    and "\<exists>n refs. f = Some n \<and> f_componentRefs (nodes s n) = Some refs
            \<and> f_componentRefs (nodes s3 n) = Some (refs @ [next_handle s])"
  using assms
  by (auto simp: createComponent_def attachComponentRef_def
      set_componentRefs_def emit_def Let_def split: option.splits)

lemma tracked_step:
  assumes "fieldComponent b = fieldComponent a" and "containerRef b = containerRef a"
    and "next_handle b = Suc (next_handle a)"
    and "componentRefs b = componentRefs a @ [next_handle a]"
    and "\<exists>n refs. f = Some n \<and> f_componentRefs (nodes a n) = Some refs
            \<and> f_componentRefs (nodes b n) = Some (refs @ [next_handle a])"
  shows "fieldComponent b = fieldComponent a \<and> containerRef b = containerRef a
       \<and> next_handle a \<le> next_handle b
       \<and> ((\<forall>h. fieldComponent a h \<noteq> Some (containerRef a)) \<longrightarrow>
            componentRefs b = componentRefs a @ created a b
          \<and> (\<forall>n refs. f = Some n \<and> f_componentRefs (nodes a n) = Some refs \<longrightarrow>
                f_componentRefs (nodes b n) = Some (refs @ created a b)))"
proof -
  have c: "created a b = [next_handle a]" using assms(3) by (simp add: created_def)
  from assms(5) obtain n refs where n: "f = Some n" "f_componentRefs (nodes a n) = Some refs"
    "f_componentRefs (nodes b n) = Some (refs @ [next_handle a])" by blast
  have "\<forall>n' refs'. f = Some n' \<and> f_componentRefs (nodes a n') = Some refs' \<longrightarrow>
                f_componentRefs (nodes b n') = Some (refs' @ created a b)"
    using n c by simp
  then show ?thesis using assms(1-4) c by simp
qed


text \<open>When no wrapper instance exposes the component's own container as its inner mount
  point, no nested call resets, and every reference a render creates is tracked.\<close>

lemma renderField_tracks:
  assumes "renderField s c f (Some wps) = Inr s'"
    and "\<forall>h. fieldComponent s h \<noteq> Some (containerRef s)"
  shows "\<exists>s1. reset_own_container s c = Inr s1
           \<and> componentRefs s' = componentRefs s1 @ created s s'
           \<and> (\<forall>n refs. f = Some n \<and> f_componentRefs (nodes s1 n) = Some refs \<longrightarrow>
                 f_componentRefs (nodes s' n) = Some (refs @ created s s'))"
proof -
  let ?T = "\<lambda>a b. componentRefs b = componentRefs a @ created a b
          \<and> (\<forall>n refs. f = Some n \<and> f_componentRefs (nodes a n) = Some refs \<longrightarrow>
                f_componentRefs (nodes b n) = Some (refs @ created a b))"
  let ?R = "\<lambda>a b. fieldComponent b = fieldComponent a \<and> containerRef b = containerRef a
       \<and> next_handle a \<le> next_handle b
       \<and> ((\<forall>h. fieldComponent a h \<noteq> Some (containerRef a)) \<longrightarrow> ?T a b)"
  have ex: "\<exists>s1. reset_own_container s c = Inr s1 \<and> ?R s1 s'"
  proof (rule renderField_Some_rel_inner [where R = ?R, OF _ _ _ _ _ _ assms(1)])
    show "\<And>s. ?R s s" by (simp add: created_def)
  next
    fix a b c assume ab: "?R a b" and bc: "?R b c"
    have le: "next_handle a \<le> next_handle b" "next_handle b \<le> next_handle c"
      using ab bc by simp_all
    have fr: "fieldComponent c = fieldComponent a" "containerRef c = containerRef a"
      "fieldComponent b = fieldComponent a" "containerRef b = containerRef a"
      using ab bc by simp_all
    have tr: "?T a c" if inv: "\<forall>h. fieldComponent a h \<noteq> Some (containerRef a)"
    proof -
      have invb: "\<forall>h. fieldComponent b h \<noteq> Some (containerRef b)"
        using inv fr by simp
      note Tab = ab [THEN conjunct2, THEN conjunct2, THEN conjunct2, THEN mp, OF inv]
      note Tbc = bc [THEN conjunct2, THEN conjunct2, THEN conjunct2, THEN mp, OF invb]
      have ch: "created a b @ created b c = created a c"
        using upt_chain [OF le] by (simp add: created_def)
      have 1: "componentRefs c = componentRefs a @ created a c"
        using Tab [THEN conjunct1] Tbc [THEN conjunct1] ch by simp
      have 2: "f_componentRefs (nodes c n) = Some (refs @ created a c)"
        if h: "f = Some n \<and> f_componentRefs (nodes a n) = Some refs" for n refs
      proof -
        have "f_componentRefs (nodes b n) = Some (refs @ created a b)"
          using Tab [THEN conjunct2, rule_format, OF h] .
        with h have "f = Some n \<and> f_componentRefs (nodes b n) = Some (refs @ created a b)"
          by simp
        from Tbc [THEN conjunct2, rule_format, OF this]
        show ?thesis using ch by simp
      qed
      show ?thesis
      proof (intro conjI allI impI)
        show "componentRefs c = componentRefs a @ created a c" by (rule 1)
      next
        fix n refs assume "f = Some n \<and> f_componentRefs (nodes a n) = Some refs"
        then show "f_componentRefs (nodes c n) = Some (refs @ created a c)" by (rule 2)
      qed
    qed
    show "?R a c"
    proof (intro conjI impI)
      show "fieldComponent c = fieldComponent a" by (rule fr)
      show "containerRef c = containerRef a" by (rule fr)
      show "next_handle a \<le> next_handle c" using le by simp
    next
      assume "\<forall>h. fieldComponent a h \<noteq> Some (containerRef a)"
      then have T: "?T a c" by (rule tr)
      show "componentRefs c = componentRefs a @ created a c" using T by (rule conjunct1)
      show "\<forall>n refs. f = Some n \<and> f_componentRefs (nodes a n) = Some refs \<longrightarrow>
                f_componentRefs (nodes c n) = Some (refs @ created a c)"
        using T by (rule conjunct2)
    qed
  next
    fix s h m s1
    assume fc: "fieldComponent s h = Some m" and rs: "reset_own_container s m = Inr s1"
    have fr: "fieldComponent s1 = fieldComponent s" "containerRef s1 = containerRef s"
      "next_handle s1 = next_handle s"
      using rs by (auto simp: reset_own_container_def resetRefs_def set_componentRefs_def
          clear_def emit_def split: if_splits option.splits)
    have same: "s1 = s" if "\<forall>h. fieldComponent s h \<noteq> Some (containerRef s)"
    proof -
      from that have "fieldComponent s h \<noteq> Some (containerRef s)" ..
      with fc have "containerRef s \<noteq> m" by simp
      with rs show ?thesis by (simp add: reset_own_container_def)
    qed
    show "?R s s1"
    proof (intro conjI impI)
      show "fieldComponent s1 = fieldComponent s" "containerRef s1 = containerRef s"
        by (rule fr)+
      show "next_handle s \<le> next_handle s1" using fr by simp
    next
      assume "\<forall>h. fieldComponent s h \<noteq> Some (containerRef s)"
      then have e: "s1 = s" by (rule same)
      show "componentRefs s1 = componentRefs s @ created s s1"
        unfolding e by (simp add: created_def)
      show "\<forall>n refs. f = Some n \<and> f_componentRefs (nodes s n) = Some refs \<longrightarrow>
                f_componentRefs (nodes s1 n) = Some (refs @ created s s1)"
        unfolding e by (simp add: created_def)
    qed
  next
    fix s c s1 assume "renderType s c f = Inr s1"
    from renderType_result [OF this] show "?R s s1"
    proof (elim disjE exE conjE)
      assume "s1 = s"
      then show ?thesis by (simp add: created_def)
    next
      fix component s2
      assume "createComponent s c component = (next_handle s, s2)"
        "attachComponentRef s2 (next_handle s) f = Inr s1"
      from create_attach_tracks [OF this] show ?thesis by (rule tracked_step)
    qed
  next
    fix s c component ref s2 s3
    assume "createComponent s c component = (ref, s2)" "attachComponentRef s2 ref f = Inr s3"
    from create_attach_tracks [OF this] show "?R s s3" by (rule tracked_step)
  next
    fix s ref wps
    show "?R s (snd (subscribe s (WrapperObserver ref f wps)))"
      by (simp add: created_def subscribe_def emit_def Let_def)
  qed
  from ex obtain s1 where both: "reset_own_container s c = Inr s1 \<and> ?R s1 s'" ..
  note s1 = both [THEN conjunct1]
  from s1 have fr: "fieldComponent s1 = fieldComponent s" "containerRef s1 = containerRef s"
      "next_handle s1 = next_handle s"
    by (auto simp: reset_own_container_def resetRefs_def set_componentRefs_def
          clear_def emit_def split: if_splits option.splits)
  have inv1: "\<forall>h. fieldComponent s1 h \<noteq> Some (containerRef s1)"
    using assms(2) fr by simp
  note T = both [THEN conjunct2, THEN conjunct2, THEN conjunct2, THEN conjunct2, THEN mp, OF inv1]
  have cr: "created s1 s' = created s s'" using fr by (simp add: created_def)
  have "reset_own_container s c = Inr s1
           \<and> componentRefs s' = componentRefs s1 @ created s s'
           \<and> (\<forall>n refs. f = Some n \<and> f_componentRefs (nodes s1 n) = Some refs \<longrightarrow>
                 f_componentRefs (nodes s' n) = Some (refs @ created s s'))"
    using s1 T unfolding cr by (intro conjI) simp_all
  then show ?thesis ..
qed


lemma renderField_instantiations_extend:
  assumes "renderField s c f (Some wps) = Inr s'"
  shows "\<exists>rest. instantiations (trace s') = instantiations (trace s) @ rest"
proof -
  from renderField_trace_extends [OF assms] obtain s1 rest where
    s1: "reset_own_container s c = Inr s1" and t: "trace s' = trace s1 @ rest"
    by blast
  from s1 have "instantiations (trace s1) = instantiations (trace s)"
    by (rule reset_own_container_frame)
  with t show ?thesis by simp
qed

lemma reset_own_container_pruned:
  assumes "reset_own_container s c = Inr s1" and "f_componentRefs (nodes s1 n) = Some refs"
  shows "refs = pruned_refs s c n"
    and "componentRefs s1 = (if c = containerRef s then [] else componentRefs s)"
  using assms
  by (auto simp: reset_own_container_def resetRefs_def set_componentRefs_def clear_def emit_def
      pruned_refs_def split: if_splits option.splits)

text \<open>A render that has something to render starts with the instantiation of the first
  remaining wrapper, or of the type when no wrapper remains, into the container of the
  call.\<close>

lemma renderField_first_instantiation:
  assumes r: "renderField s c f (Some wps) = Inr s'"
    and some: "wps \<noteq> [] \<or> (\<exists>n. f = Some n \<and> truthy_str (f_type (nodes s n)))"
  shows "\<exists>n component rest s1 refs. f = Some n
     \<and> (case wps of [] \<Rightarrow> types s (the (f_type (nodes s n)))
         | w # ws \<Rightarrow> wrapper_registry s w) = Some component
     \<and> instantiations (trace s') = instantiations (trace s) @ (c, component, next_handle s) # rest
     \<and> reset_own_container s c = Inr s1 \<and> f_componentRefs (nodes s1 n) = Some refs"
proof (cases wps)
  case Nil
  with r some show ?thesis
    by (auto simp: reset_own_container_def resetRefs_def renderType_def getType_def
      createComponent_def attachComponentRef_def set_componentRefs_def emit_def clear_def
      Let_def split: option.splits if_splits sum.splits)
next
  case (Cons w ws)
  with r obtain s1 component ref s2 s3 i s4 where
    s1: "reset_own_container s c = Inr s1"
    and w: "getWrapper s1 w = Inr component"
    and s2: "createComponent s1 c component = (ref, s2)"
    and s3: "attachComponentRef s2 ref f = Inr s3"
    and s4: "subscribe s3 (WrapperObserver ref f ws) = (i, s4)"
    and obs: "fieldComponent_observer s4 ref f ws
                \<lparr>currentValue = fieldComponent s4 ref, previousValue = None,
                 firstChange = True\<rparr> = Inr s'"
    by (auto split: sum.splits prod.splits)
  have reg: "wrapper_registry s w = Some component"
    using s1 w
    by (auto simp: getWrapper_def reset_own_container_def resetRefs_def set_componentRefs_def
        clear_def emit_def split: if_splits option.splits)
  from create_attach_tracks(5) [OF s2 s3] obtain n refs where
    n: "f = Some n" "f_componentRefs (nodes s1 n) = Some refs" by blast
  have i3: "instantiations (trace s3)
              = instantiations (trace s1) @ [(c, component, next_handle s1)]"
    using create_attach_result(3) [OF s2 s3] .
  have i4: "instantiations (trace s4) = instantiations (trace s3)"
    using s4 by (auto simp: subscribe_def emit_def Let_def)
  have "\<exists>rest. instantiations (trace s') = instantiations (trace s4) @ rest"
  proof (cases "fieldComponent s4 ref")
    case None
    with obs show ?thesis by simp
  next
    case (Some m)
    with obs have "renderField s4 m f (Some ws) = Inr s'"
      by (auto split: sum.splits)
    then show ?thesis by (rule renderField_instantiations_extend)
  qed
  then obtain rest where "instantiations (trace s') = instantiations (trace s4) @ rest" ..
  then have "instantiations (trace s')
      = instantiations (trace s) @ (c, component, next_handle s) # rest"
    using i3 i4 reset_own_container_frame(1,2) [OF s1] by simp
  with n reg s1 Cons show ?thesis by simp
qed


lemma detach_previous_frame:
  assumes "s1 = snd (detach_previous s prev)"
  shows "next_handle s1 = next_handle s" and "nodes s1 = nodes s"
    and "componentRefs s1 = componentRefs s" and "containerRef s1 = containerRef s"
    and "field s1 = field s" and "fieldComponent s1 = fieldComponent s"
    and "instance_field s1 = instance_field s" and "types s1 = types s"
    and "wrapper_registry s1 = wrapper_registry s"
    and "instantiations (trace s1) = instantiations (trace s)"
  using assms
  by (auto simp: detach_previous_def detach_def emit_def split: option.splits list.splits)

lemma fieldComponent_observer_rerender:
  assumes cur: "currentValue chg = Some cur"
    and a: "previousValue chg = None
         \<or> (\<exists>prev. previousValue chg = Some prev
               \<and> (views s prev = [] \<or> last (views s prev) \<in> set (destroyed s)))"
    and r: "fieldComponent_observer s ref f wps chg = Inr s'"
    and some: "wps \<noteq> [] \<or> (\<exists>n. f = Some n \<and> truthy_str (f_type (nodes s n)))"
  shows "next_handle s < next_handle s'
       \<and> (\<exists>n component rest. f = Some n
            \<and> (case wps of [] \<Rightarrow> types s (the (f_type (nodes s n)))
                | w # ws \<Rightarrow> wrapper_registry s w) = Some component
            \<and> instantiations (trace s')
                = instantiations (trace s) @ (cur, component, next_handle s) # rest
            \<and> map (snd \<circ> snd) ((cur, component, next_handle s) # rest) = created s s'
            \<and> (\<forall>h\<in>set (created s s'). instance_field s' h = Some n)
            \<and> ((\<forall>h. fieldComponent s h \<noteq> Some (containerRef s)) \<longrightarrow>
                  componentRefs s'
                    = (if cur = containerRef s then [] else componentRefs s) @ created s s'
                \<and> f_componentRefs (nodes s' n) = Some (pruned_refs s cur n @ created s s')))"
proof -
  define s1 where "s1 = snd (detach_previous s (previousValue chg))"
  note fr = detach_previous_frame [OF s1_def]
  from r cur a obtain s2 where r2: "renderField s1 cur f (Some wps) = Inr s2"
    and s': "s' = (if firstChange chg then s2 else detectChanges s2 ref)"
    by (auto simp: s1_def detach_previous_def detach_def emit_def
        split: list.splits sum.splits if_splits)
  have fr': "next_handle s' = next_handle s2" "nodes s' = nodes s2"
    "componentRefs s' = componentRefs s2" "instance_field s' = instance_field s2"
    "instantiations (trace s') = instantiations (trace s2)"
    using s' by (auto simp: detectChanges_def emit_def)
  have cr: "created s1 s2 = created s s'"
    by (simp add: created_def fr fr')
  have some1: "wps \<noteq> [] \<or> (\<exists>n. f = Some n \<and> truthy_str (f_type (nodes s1 n)))"
    using some fr by simp
  from renderField_first_instantiation [OF r2 some1] obtain n component rest t refs where
    n: "f = Some n"
    and comp: "(case wps of [] \<Rightarrow> types s1 (the (f_type (nodes s1 n)))
                | w # ws \<Rightarrow> wrapper_registry s1 w) = Some component"
    and ins: "instantiations (trace s2)
                = instantiations (trace s1) @ (cur, component, next_handle s1) # rest"
    and t: "reset_own_container s1 cur = Inr t" and refs: "f_componentRefs (nodes t n) = Some refs"
    by blast
  note c = renderField_created [OF r2]
  have lt: "next_handle s < next_handle s'"
    using renderField_creates [OF r2 some1] fr fr' by simp
  have hs: "map (snd \<circ> snd) ((cur, component, next_handle s) # rest) = created s s'"
    using c [THEN conjunct2, THEN conjunct1] ins cr fr by simp
  have att: "\<forall>h\<in>set (created s s'). instance_field s' h = Some n"
    using c [THEN conjunct2, THEN conjunct2, THEN conjunct2] cr n fr' by simp
  have pr: "pruned_refs s1 cur n = pruned_refs s cur n"
    by (auto simp: pruned_refs_def fr split: option.splits)
  have tr: "componentRefs s' = (if cur = containerRef s then [] else componentRefs s) @ created s s'
          \<and> f_componentRefs (nodes s' n) = Some (pruned_refs s cur n @ created s s')"
    if inv: "\<forall>h. fieldComponent s h \<noteq> Some (containerRef s)"
  proof -
    have inv1: "\<forall>h. fieldComponent s1 h \<noteq> Some (containerRef s1)"
      using inv fr by simp
    from renderField_tracks [OF r2 inv1] t have
      1: "componentRefs s2 = componentRefs t @ created s1 s2"
      and 2: "\<forall>n refs. f = Some n \<and> f_componentRefs (nodes t n) = Some refs \<longrightarrow>
                 f_componentRefs (nodes s2 n) = Some (refs @ created s1 s2)"
      by simp_all
    from 2 n refs have 3: "f_componentRefs (nodes s2 n) = Some (refs @ created s1 s2)"
      by blast
    note p = reset_own_container_pruned [OF t refs]
    show ?thesis
      using 1 3 p pr cr fr fr' by simp
  qed
  have comp': "(case wps of [] \<Rightarrow> types s (the (f_type (nodes s n)))
                | w # ws \<Rightarrow> wrapper_registry s w) = Some component"
    using comp fr by (cases wps) simp_all
  have ins': "instantiations (trace s')
                = instantiations (trace s) @ (cur, component, next_handle s) # rest"
    using ins fr fr' by simp
  have "f = Some n
            \<and> (case wps of [] \<Rightarrow> types s (the (f_type (nodes s n)))
                | w # ws \<Rightarrow> wrapper_registry s w) = Some component
            \<and> instantiations (trace s')
                = instantiations (trace s) @ (cur, component, next_handle s) # rest
            \<and> map (snd \<circ> snd) ((cur, component, next_handle s) # rest) = created s s'
            \<and> (\<forall>h\<in>set (created s s'). instance_field s' h = Some n)
            \<and> ((\<forall>h. fieldComponent s h \<noteq> Some (containerRef s)) \<longrightarrow>
                  componentRefs s'
                    = (if cur = containerRef s then [] else componentRefs s) @ created s s'
                \<and> f_componentRefs (nodes s' n) = Some (pruned_refs s cur n @ created s s'))"
    using n comp' ins' hs att tr by (intro conjI impI) blast+
  then show ?thesis using lt by blast
qed

text \<open>
  Claim C3. Let the callback observe a truthy inner mount point \<open>cur\<close>.

  (a) When there is a previous inner mount point whose last view is not destroyed, that
  view is detached from it and inserted into the new one, and no reference is created: the
  calls made are the detach, the insert and, unless this is the first observation, the
  change detection of the wrapper, and the instantiations and the next reference are as
  before.

  (b) When there is no previous inner mount point, or it holds no view, or its view is
  destroyed, the callback is the recursive \<open>renderField\<close> of the node with the remaining
  wrappers into the new inner mount point, followed by the change detection unless this is
  the first observation. When there is something to render (a remaining wrapper, or a type
  on the node), a call that returns has created new references. The first of them is the
  reference of a component instantiated into the new inner mount point: the registered
  component of the first remaining wrapper, or of the node's type when no wrapper remains.
  The instantiations that the call has added have exactly the references created, in the
  order of creation, and the node is attached to every new instance. When no wrapper
  instance exposes the component's own container as its inner mount point, so that no
  nested call resets the tracking, every new reference is tracked: the component's own list
  and the tracked list of the node are what the reset at the start of the render leaves of
  them, followed by the new references.

  (c) Whenever the callback returns, on any observation but the first the last call made
  is the change detection of this wrapper, and on the first observation no change
  detection has been added.
\<close>

theorem fieldComponent_observer_truthy:
  assumes cur: "currentValue chg = Some cur"
  shows
   "(\<forall>prev. previousValue chg = Some prev \<and> views s prev \<noteq> []
            \<and> last (views s prev) \<notin> set (destroyed s) \<longrightarrow>
       (\<exists>s'. fieldComponent_observer s ref f wps chg = Inr s'
          \<and> next_handle s' = next_handle s
          \<and> instantiations (trace s') = instantiations (trace s)
          \<and> trace s' = trace s @ [Detach prev (Some (last (views s prev))),
                                  Insert cur (last (views s prev))]
                               @ (if firstChange chg then [] else [DetectChanges ref])
          \<and> views s' cur = ((views s)(prev := butlast (views s prev))) cur
                             @ [last (views s prev)]))
    \<and> ((previousValue chg = None
         \<or> (\<exists>prev. previousValue chg = Some prev
               \<and> (views s prev = [] \<or> last (views s prev) \<in> set (destroyed s)))) \<longrightarrow>
         fieldComponent_observer s ref f wps chg =
           and_then (renderField (snd (detach_previous s (previousValue chg))) cur f (Some wps))
             (\<lambda>s2. Inr (if firstChange chg then s2 else detectChanges s2 ref))
         \<and> (\<forall>s'. fieldComponent_observer s ref f wps chg = Inr s'
                \<and> (wps \<noteq> [] \<or> (\<exists>n. f = Some n \<and> truthy_str (f_type (nodes s n))))
              \<longrightarrow> next_handle s < next_handle s'
                \<and> (\<exists>n component rest. f = Some n
                     \<and> (case wps of [] \<Rightarrow> types s (the (f_type (nodes s n)))
                         | w # ws \<Rightarrow> wrapper_registry s w) = Some component
                     \<and> instantiations (trace s')
                         = instantiations (trace s) @ (cur, component, next_handle s) # rest
                     \<and> map (snd \<circ> snd) ((cur, component, next_handle s) # rest) = created s s'
                     \<and> (\<forall>h\<in>set (created s s'). instance_field s' h = Some n)
                     \<and> ((\<forall>h. fieldComponent s h \<noteq> Some (containerRef s)) \<longrightarrow>
                           componentRefs s'
                             = (if cur = containerRef s then [] else componentRefs s)
                               @ created s s'
                         \<and> f_componentRefs (nodes s' n)
                             = Some (pruned_refs s cur n @ created s s')))))
    \<and> (\<forall>s'. fieldComponent_observer s ref f wps chg = Inr s' \<longrightarrow>
          (if firstChange chg then detections (trace s') = detections (trace s)
           else last (trace s') = DetectChanges ref))"
proof (intro conjI allI impI)
  fix prev
  assume "previousValue chg = Some prev \<and> views s prev \<noteq> []
            \<and> last (views s prev) \<notin> set (destroyed s)"
  then show "\<exists>s'. fieldComponent_observer s ref f wps chg = Inr s'
          \<and> next_handle s' = next_handle s
          \<and> instantiations (trace s') = instantiations (trace s)
          \<and> trace s' = trace s @ [Detach prev (Some (last (views s prev))),
                                  Insert cur (last (views s prev))]
                               @ (if firstChange chg then [] else [DetectChanges ref])
          \<and> views s' cur = ((views s)(prev := butlast (views s prev))) cur
                             @ [last (views s prev)]"
    using cur
    by (cases "views s prev")
       (auto simp: detach_previous_def detach_def insert_view_def detectChanges_def emit_def)
next
  assume a: "previousValue chg = None
         \<or> (\<exists>prev. previousValue chg = Some prev
               \<and> (views s prev = [] \<or> last (views s prev) \<in> set (destroyed s)))"
  show "fieldComponent_observer s ref f wps chg =
           and_then (renderField (snd (detach_previous s (previousValue chg))) cur f (Some wps))
             (\<lambda>s2. Inr (if firstChange chg then s2 else detectChanges s2 ref))"
    using cur a
    by (auto simp: detach_previous_def detach_def and_then_def emit_def
        split: list.splits sum.splits)
  fix s'
  assume b: "fieldComponent_observer s ref f wps chg = Inr s'
                \<and> (wps \<noteq> [] \<or> (\<exists>n. f = Some n \<and> truthy_str (f_type (nodes s n))))"
  note e = fieldComponent_observer_rerender [OF cur a b [THEN conjunct1] b [THEN conjunct2]]
  show "next_handle s < next_handle s'" using e by (rule conjunct1)
  show "\<exists>n component rest. f = Some n
                     \<and> (case wps of [] \<Rightarrow> types s (the (f_type (nodes s n)))
                         | w # ws \<Rightarrow> wrapper_registry s w) = Some component
                     \<and> instantiations (trace s')
                         = instantiations (trace s) @ (cur, component, next_handle s) # rest
                     \<and> map (snd \<circ> snd) ((cur, component, next_handle s) # rest) = created s s'
                     \<and> (\<forall>h\<in>set (created s s'). instance_field s' h = Some n)
                     \<and> ((\<forall>h. fieldComponent s h \<noteq> Some (containerRef s)) \<longrightarrow>
                           componentRefs s'
                             = (if cur = containerRef s then [] else componentRefs s)
                               @ created s s'
                         \<and> f_componentRefs (nodes s' n)
                             = Some (pruned_refs s cur n @ created s s'))"
    using e by (rule conjunct2)
next
  fix s'
  assume r: "fieldComponent_observer s ref f wps chg = Inr s'"
  define s1 where "s1 = snd (detach_previous s (previousValue chg))"
  have fr: "detections (trace s1) = detections (trace s)"
    by (auto simp: s1_def detach_previous_def detach_def emit_def split: option.splits list.splits)
  show "if firstChange chg then detections (trace s') = detections (trace s)
           else last (trace s') = DetectChanges ref"
  proof (cases "firstChange chg")
    case False
    with r cur show ?thesis
      by (auto simp: detectChanges_def emit_def split: prod.splits sum.splits option.splits if_splits)
  next
    case True
    with r cur have "(\<exists>v. s' = insert_view s1 cur v) \<or> renderField s1 cur f (Some wps) = Inr s'"
      by (auto simp: s1_def split: prod.splits sum.splits option.splits if_splits)
    then show ?thesis using True fr
      by (auto simp: insert_view_def emit_def dest: renderField_detections)
  qed
qed

theorem fieldComponent_observer_truthy_witness:
  "(\<exists>s'. fieldComponent_observer (example_world\<lparr>views := (\<lambda>m. if m = 5 then [9] else [])\<rparr>)
            0 (Some 0) []
            \<lparr>currentValue = Some 6, previousValue = Some 5, firstChange = False\<rparr> = Inr s'
         \<and> next_handle s' = 0
         \<and> trace s' = [Detach 5 (Some 9), Insert 6 9, DetectChanges 0]
         \<and> views s' 6 = [9])
   \<and> (\<exists>s'. fieldComponent_observer example_world_wrapped 0 (Some 0) []
            \<lparr>currentValue = Some 1, previousValue = None, firstChange = True\<rparr> = Inr s'
         \<and> next_handle s' = 2
         \<and> instantiations (trace s') = [(1, ''InputType'', 1)]
         \<and> instance_field s' 1 = Some 0
         \<and> componentRefs s' = [0, 1]
         \<and> f_componentRefs (nodes s' 0) = Some [0, 1]
         \<and> detections (trace s') = [])"
proof
  show "\<exists>s'. fieldComponent_observer (example_world\<lparr>views := (\<lambda>m. if m = 5 then [9] else [])\<rparr>)
            0 (Some 0) []
            \<lparr>currentValue = Some 6, previousValue = Some 5, firstChange = False\<rparr> = Inr s'
         \<and> next_handle s' = 0
         \<and> trace s' = [Detach 5 (Some 9), Insert 6 9, DetectChanges 0]
         \<and> views s' 6 = [9]"
    using fieldComponent_observer_truthy
      [of "\<lparr>currentValue = Some 6, previousValue = Some 5, firstChange = False\<rparr>" 6
          "example_world\<lparr>views := (\<lambda>m. if m = 5 then [9] else [])\<rparr>" 0 "Some 0" "[]"]
    by (auto simp add: example_world_def simp del: fieldComponent_observer.simps)
next
  let ?w = example_world_wrapped
  let ?chg = "\<lparr>currentValue = Some (1::nat), previousValue = None, firstChange = True\<rparr>"
  have "\<exists>s'. fieldComponent_observer ?w 0 (Some 0) [] ?chg = Inr s' \<and> next_handle s' = 2"
    by (simp add: example_world_wrapped_def example_world_def example_node_def
        reset_own_container_def renderType_def
        getType_def createComponent_def attachComponentRef_def set_componentRefs_def emit_def)
  then obtain s' where s': "fieldComponent_observer ?w 0 (Some 0) [] ?chg = Inr s'"
    and nh: "next_handle s' = 2" by blast
  have w: "next_handle ?w = 1" "trace ?w = []" "containerRef ?w = 0" "componentRefs ?w = [0]"
    "pruned_refs ?w 1 0 = [0]" "types ?w (the (f_type (nodes ?w 0))) = Some ''InputType''"
    "\<forall>h. fieldComponent ?w h \<noteq> Some (containerRef ?w)"
    "truthy_str (f_type (nodes ?w 0))"
    by (simp_all add: example_world_wrapped_def example_world_def example_node_def pruned_refs_def)
  have c: "created ?w s' = [1]" by (simp add: created_def w nh numeral_2_eq_2)
  note t = fieldComponent_observer_truthy [of ?chg 1 ?w 0 "Some 0" "[]"]
  have b: "\<exists>n component rest. Some (0::nat) = Some n
                     \<and> types ?w (the (f_type (nodes ?w n))) = Some component
                     \<and> instantiations (trace s')
                         = instantiations (trace ?w) @ (1, component, next_handle ?w) # rest
                     \<and> map (snd \<circ> snd) ((1, component, next_handle ?w) # rest) = created ?w s'
                     \<and> (\<forall>h\<in>set (created ?w s'). instance_field s' h = Some n)
                     \<and> ((\<forall>h. fieldComponent ?w h \<noteq> Some (containerRef ?w)) \<longrightarrow>
                           componentRefs s'
                             = (if 1 = containerRef ?w then [] else componentRefs ?w)
                               @ created ?w s'
                         \<and> f_componentRefs (nodes s' n)
                             = Some (pruned_refs ?w 1 n @ created ?w s'))"
    using t s' w(8) by (simp del: fieldComponent_observer.simps)
  have d: "detections (trace s') = detections (trace ?w)"
    using t s' by (simp del: fieldComponent_observer.simps)
  from b have "instantiations (trace s') = [(1, ''InputType'', 1)]
         \<and> instance_field s' 1 = Some 0
         \<and> componentRefs s' = [0, 1]
         \<and> f_componentRefs (nodes s' 0) = Some [0, 1]"
    using w c by auto
  with s' nh d w(2) show "\<exists>s'. fieldComponent_observer ?w 0 (Some 0) [] ?chg = Inr s'
         \<and> next_handle s' = 2
         \<and> instantiations (trace s') = [(1, ''InputType'', 1)]
         \<and> instance_field s' 1 = Some 0
         \<and> componentRefs s' = [0, 1]
         \<and> f_componentRefs (nodes s' 0) = Some [0, 1]
         \<and> detections (trace s') = []"
    by auto
qed

subsection \<open>The chain of wrappers\<close>

lemma nested_chain_cong:
  assumes "types s' = types s" and "wrapper_registry s' = wrapper_registry s"
    and "fieldComponent s' = fieldComponent s" and "f_type (nodes s' n) = f_type (nodes s n)"
  shows "nested_chain s' c h n ws = nested_chain s c h n ws"
  using assms by (induction ws arbitrary: c h) auto

lemma length_nested_chain:
  "length (nested_chain s c h n ws)
     = length ws + (if truthy_str (f_type (nodes s n)) then 1 else 0)"
  by (induction ws arbitrary: c h) auto

lemma nested_chain_nth:
  "i < length ws \<Longrightarrow>
     nested_chain s c h n ws ! i
       = (if i = 0 then c else the (fieldComponent s (h + i - 1)),
          the (wrapper_registry s (ws ! i)), h + i)"
proof (induction ws arbitrary: c h i)
  case Nil
  then show ?case by simp
next
  case (Cons w ws)
  show ?case
  proof (cases i)
    case 0
    then show ?thesis by simp
  next
    case (Suc j)
    with Cons.prems have "j < length ws" by simp
    from Cons.IH [OF this, of "the (fieldComponent s h)" "Suc h"] Suc
    show ?thesis by (cases j) auto
  qed
qed

lemma nested_chain_leaf:
  "truthy_str (f_type (nodes s n)) \<Longrightarrow>
     nested_chain s c h n ws ! length ws
       = (if ws = [] then c else the (fieldComponent s (h + length ws - 1)),
          the (types s (the (f_type (nodes s n)))), h + length ws)"
proof (induction ws arbitrary: c h)
  case Nil
  then show ?case by simp
next
  case (Cons w ws)
  from Cons.IH [OF Cons.prems, of "the (fieldComponent s h)" "Suc h"]
  show ?case by (cases ws) auto
qed

lemma renderField_wrapper_step:
  assumes "wrapper_registry s w = Some component"
    and "c = containerRef s \<and> field s = Some n \<or> f_componentRefs (nodes s n) \<noteq> None"
  shows "\<exists>s4. renderField s c (Some n) (Some (w # ws))
               = fieldComponent_observer s4 (next_handle s) (Some n) ws
                   \<lparr>currentValue = fieldComponent s (next_handle s), previousValue = None,
                    firstChange = True\<rparr>
           \<and> types s4 = types s \<and> wrapper_registry s4 = wrapper_registry s
           \<and> fieldComponent s4 = fieldComponent s
           \<and> f_type (nodes s4 n) = f_type (nodes s n)
           \<and> next_handle s4 = Suc (next_handle s)
           \<and> instantiations (trace s4) = instantiations (trace s) @ [(c, component, next_handle s)]
           \<and> f_componentRefs (nodes s4 n) \<noteq> None"
  using assms
  by (auto simp: reset_own_container_def resetRefs_def getWrapper_def createComponent_def
      attachComponentRef_def set_componentRefs_def subscribe_def emit_def clear_def Let_def
      simp del: fieldComponent_observer.simps split: option.splits)

lemma renderField_chain:
  assumes "\<forall>w\<in>set ws. wrapper_registry s w \<noteq> None"
    and "truthy_str (f_type (nodes s n)) \<longrightarrow> types s (the (f_type (nodes s n))) \<noteq> None"
    and "\<forall>i<length ws. fieldComponent s (next_handle s + i) \<noteq> None"
    and "c = containerRef s \<and> field s = Some n \<or> f_componentRefs (nodes s n) \<noteq> None"
  shows "\<exists>s'. renderField s c (Some n) (Some ws) = Inr s'
           \<and> instantiations (trace s')
               = instantiations (trace s) @ nested_chain s c (next_handle s) n ws"
  using assms
proof (induction ws arbitrary: s c)
  case Nil
  then show ?case
    by (auto simp: reset_own_container_def resetRefs_def renderType_def getType_def
      createComponent_def attachComponentRef_def set_componentRefs_def emit_def clear_def
      Let_def split: option.splits)
next
  case (Cons w ws)
  from Cons.prems(1) obtain component where w: "wrapper_registry s w = Some component"
    by auto
  from Cons.prems(3) obtain m where m: "fieldComponent s (next_handle s) = Some m"
    by fastforce
  from renderField_wrapper_step [OF w Cons.prems(4), of ws] obtain s4 where
    step: "renderField s c (Some n) (Some (w # ws))
               = fieldComponent_observer s4 (next_handle s) (Some n) ws
                   \<lparr>currentValue = fieldComponent s (next_handle s), previousValue = None,
                    firstChange = True\<rparr>"
    and fr: "types s4 = types s" "wrapper_registry s4 = wrapper_registry s"
      "fieldComponent s4 = fieldComponent s" "f_type (nodes s4 n) = f_type (nodes s n)"
    and nh: "next_handle s4 = Suc (next_handle s)"
    and tr: "instantiations (trace s4) = instantiations (trace s) @ [(c, component, next_handle s)]"
    and refs: "f_componentRefs (nodes s4 n) \<noteq> None"
    by blast
  have obs: "renderField s c (Some n) (Some (w # ws))
               = renderField s4 m (Some n) (Some ws)"
    unfolding step using m by (simp split: sum.splits)
  have h1: "\<forall>w\<in>set ws. wrapper_registry s4 w \<noteq> None"
    using Cons.prems(1) fr by simp
  have h2: "truthy_str (f_type (nodes s4 n)) \<longrightarrow> types s4 (the (f_type (nodes s4 n))) \<noteq> None"
    using Cons.prems(2) fr by simp
  have h3: "\<forall>i<length ws. fieldComponent s4 (next_handle s4 + i) \<noteq> None"
  proof (intro allI impI)
    fix i assume "i < length ws"
    then have "Suc i < length (w # ws)" by simp
    with Cons.prems(3) have "fieldComponent s (next_handle s + Suc i) \<noteq> None" by blast
    then show "fieldComponent s4 (next_handle s4 + i) \<noteq> None" using fr nh by simp
  qed
  have h4: "m = containerRef s4 \<and> field s4 = Some n \<or> f_componentRefs (nodes s4 n) \<noteq> None"
    using refs by simp
  from Cons.IH [OF h1 h2 h3 h4] obtain s' where
    r: "renderField s4 m (Some n) (Some ws) = Inr s'"
    and t: "instantiations (trace s')
               = instantiations (trace s4) @ nested_chain s4 m (next_handle s4) n ws"
    by blast
  have "nested_chain s4 m (next_handle s4) n ws = nested_chain s m (Suc (next_handle s)) n ws"
    using nested_chain_cong [OF fr] nh by simp
  with r t obs tr w m show ?case by simp
qed

lemmas render_defs = reset_own_container_def resetRefs_def renderType_def getType_def getWrapper_def
      createComponent_def attachComponentRef_def set_componentRefs_def subscribe_def emit_def clear_def
      detach_previous_def

text \<open>
  Claim C2, as stated, fails. The callback of the wrapper observer renders the remaining
  wrappers only when the observed inner mount point is truthy (line 87). For the node of
  the example with the wrappers \<open>panel\<close> and \<open>form-field\<close>, and wrapper instances that
  expose no inner mount point when they are observed first, the render instantiates the
  first wrapper only: one instantiation instead of two, and no instantiation of the type.
\<close>

theorem renderField_chain_stops_counterexample:
  "rendered (renderField example_world_no_inner 0 (Some 0) (Some [''panel'', ''form-field'']))
     = Some [(0, ''PanelWrapper'', 0)]"
  by (simp add: rendered_def example_world_no_inner_def example_world_def example_node_def render_defs)

text \<open>
  Claim C2, amended. For a node with a non-empty wrapper sequence \<open>ws\<close> of length N whose
  wrapper names, and type if it has one, are registered, and whose tracked list exists or
  is created by the reset: when each of the N wrapper instances that are created exposes a
  truthy inner mount point at its first observation, \<open>renderField\<close> returns and has added
  exactly these instantiations, in this order: the i-th wrapper of the sequence, for
  i = 0 .. N-1, into the container of the call for i = 0 and into the inner mount point of
  wrapper i-1 otherwise; and then, if the node has a type, the component of the type into
  the inner mount point of the last wrapper; so N wrappers and one type component when the
  node has a type, N wrappers and nothing else when it has none.
\<close>

theorem renderField_wrapper_chain:
  assumes "ws \<noteq> []"
    and "\<forall>w\<in>set ws. wrapper_registry s w \<noteq> None"
    and "truthy_str (f_type (nodes s n)) \<longrightarrow> types s (the (f_type (nodes s n))) \<noteq> None"
    and "\<forall>i<length ws. fieldComponent s (next_handle s + i) \<noteq> None"
    and "c = containerRef s \<and> field s = Some n \<or> f_componentRefs (nodes s n) \<noteq> None"
  shows "\<exists>s' new. renderField s c (Some n) (Some ws) = Inr s'
           \<and> instantiations (trace s') = instantiations (trace s) @ new
           \<and> new = nested_chain s c (next_handle s) n ws
           \<and> length new = length ws + (if truthy_str (f_type (nodes s n)) then 1 else 0)
           \<and> (\<forall>i<length ws.
                 new ! i = (if i = 0 then c else the (fieldComponent s (next_handle s + i - 1)),
                            the (wrapper_registry s (ws ! i)), next_handle s + i))
           \<and> (truthy_str (f_type (nodes s n)) \<longrightarrow>
                 new ! length ws = (the (fieldComponent s (next_handle s + length ws - 1)),
                                    the (types s (the (f_type (nodes s n)))),
                                    next_handle s + length ws))"
proof -
  from renderField_chain [OF assms(2-5)] obtain s' where
    "renderField s c (Some n) (Some ws) = Inr s'"
    "instantiations (trace s') = instantiations (trace s) @ nested_chain s c (next_handle s) n ws"
    by blast
  then show ?thesis
    using assms(1) by (simp add: length_nested_chain nested_chain_nth nested_chain_leaf)
qed

theorem renderField_wrapper_chain_witness:
  "\<exists>s'. renderField example_world 0 (Some 0) (Some [''panel'', ''form-field'']) = Inr s'
     \<and> instantiations (trace s')
         = [(0, ''PanelWrapper'', 0), (1, ''FormFieldWrapper'', 1), (2, ''InputType'', 2)]"
  using renderField_wrapper_chain [of "[''panel'', ''form-field'']" example_world 0 0]
  by (auto simp add: example_world_def example_node_def simp del: renderField.simps)

subsection \<open>Pruning the tracked references\<close>










subsection \<open>Value wiring\<close>

lemma assignments_append [simp]: "assignments (xs @ ys) = assignments xs @ assignments ys"
  by (induction xs rule: assignments.induct) auto

lemma broadcasts_append [simp]: "broadcasts (xs @ ys) = broadcasts xs @ broadcasts ys"
  by (induction xs rule: broadcasts.induct) auto

lemma pipelines_append [simp]: "pipelines (xs @ ys) = pipelines xs @ pipelines ys"
  by (induction xs rule: pipelines.induct) auto

lemma debounceTime_rapid:
  "rapid d raw \<Longrightarrow> raw \<noteq> [] \<Longrightarrow> debounceTime d raw = [(fst (last raw) + d, snd (last raw))]"
  by (induction d raw rule: debounceTime.induct) auto

lemmas wiring_defs = fieldChanges_def unsubscribe_all_def unsubscribe_def subscribe_def emit_def
  valueChanges_pipeline_def debounce_applies_def getFieldValue_def valueChanges_subscriber_def
  shared_control_def apply_parsers_def assignFieldValue_def patchValue_def Let_def

lemma unsubscribe_all_frame:
  "nodes (unsubscribe_all s is) = nodes s"
  "controls (unsubscribe_all s is) = controls s"
  "next_sub (unsubscribe_all s is) = next_sub s"
  "assignments (trace (unsubscribe_all s is)) = assignments (trace s)"
  "broadcasts (trace (unsubscribe_all s is)) = broadcasts (trace s)"
  unfolding unsubscribe_all_def
  by (induction "is" arbitrary: s) (simp_all add: unsubscribe_def emit_def)

lemma valueChanges_subscriber_result:
  assumes "has_options (nodes s n)"
  shows "\<exists>s'. valueChanges_subscriber s n c v = Inr s'
           \<and> stored (nodes s' n) = apply_parsers (parsers (nodes s n)) v
           \<and> trace s' = trace s @ (if shared_control (controls s c) then [PatchValue c v] else [])
                           @ [AssignFieldValue n (apply_parsers (parsers (nodes s n)) v),
                              FieldChangesNext (apply_parsers (parsers (nodes s n)) v) n
                                ''valueChanges'']
           \<and> subs s' = subs s"
  using assms
  by (simp add: valueChanges_subscriber_def assignFieldValue_def patchValue_def emit_def Let_def)

lemma initial_emissions_pipeline:
  "initial_emissions (valueChanges_pipeline c cv fv mo)
     = (if cv \<noteq> fv \<and> \<not> debounce_applies mo then [cv] else [])"
  by (simp add: valueChanges_pipeline_def Let_def)

lemma fieldChanges_bound_node:
  assumes "truthy (key (nodes s n))" and "fieldGroup (nodes s n) = None"
    and "formControl (nodes s n) = Some c" and "modelOptions (nodes s n) = Some mo"
    and "has_options (nodes s n)"
  shows "\<exists>is s4 old. fieldChanges s (Some n)
              = (case deliver s4 n c
                        (initial_emissions
                           (valueChanges_pipeline c (c_value (controls s c)) (getFieldValue s n) mo)) of
                   Inl e \<Rightarrow> Inl e | Inr s5 \<Rightarrow> Inr (is, s5))
           \<and> nodes s4 = nodes s \<and> controls s4 = controls s
           \<and> subs s4 = old @ [(last is, ValueSubscription n c
                 (valueChanges_pipeline c (c_value (controls s c)) (getFieldValue s n) mo))]
           \<and> assignments (trace s4) = assignments (trace s)
           \<and> broadcasts (trace s4) = broadcasts (trace s)"
  using assms
  apply (simp add: fieldChanges_def subscribe_def emit_def Let_def unsubscribe_all_frame
      getFieldValue_def del: deliver.simps)
  apply (intro exI conjI)
       apply (rule refl)
      apply (simp_all add: unsubscribe_all_frame)
  done


text \<open>
  Claim C4, as stated, fails when the node is debounced. Lines 203 to 206 rebuild the stream
  from \<open>control.valueChanges\<close> and drop what lines 197 to 201 built, the prepended value
  included. For the example node with \<open>debounce.default = 300\<close> the control's value \<open>"Al"\<close>
  differs from the value \<open>"Ali"\<close> read off the node, and yet the subscribed stream is the
  debounced raw stream: it has no initial emission, and wiring writes nothing.
\<close>

theorem debounce_drops_initial_emission_counterexample:
  "c_value (controls example_world_debounced 0) = JStr ''Al''
   \<and> getFieldValue example_world_debounced 0 = JStr ''Ali''
   \<and> subscribed (fieldChanges example_world_debounced (Some 0))
       = Some [DebounceTime 300 (ValueChanges 0)]
   \<and> initial_emissions (DebounceTime 300 (ValueChanges 0)) = []
   \<and> written (fieldChanges example_world_debounced (Some 0)) = Some []"
  by (simp add: subscribed_def written_def example_world_debounced_def example_world_def
      example_node_def example_control_def wiring_defs)

text \<open>
  Claim C4, amended. For a node with a value-binding key and no child group (and with its
  control, its model options and its options present, without which \<open>fieldChanges\<close>
  throws), \<open>fieldChanges\<close> returns and subscribes a stream whose initial synthetic
  emission is the control's current value if and only if that value differs from the value
  read off the node and the debounce of lines 203 to 206 does not apply (\<open>updateOn\<close> unset
  or \<open>"change"\<close> with a positive \<open>debounce.default\<close>). In particular, when the control's
  value equals the node's value there is no initial emission and nothing is written back
  to the node; when there is one, it is written once, through the parsers.
\<close>

theorem fieldChanges_initial_emission:
  assumes "truthy (key (nodes s n))" and "fieldGroup (nodes s n) = None"
    and "formControl (nodes s n) = Some c" and "modelOptions (nodes s n) = Some mo"
    and "has_options (nodes s n)"
  shows "\<exists>is s'. fieldChanges s (Some n) = Inr (is, s')
           \<and> last (subs s')
               = (last is, ValueSubscription n c
                    (valueChanges_pipeline c (c_value (controls s c)) (getFieldValue s n) mo))
           \<and> initial_emissions
                 (valueChanges_pipeline c (c_value (controls s c)) (getFieldValue s n) mo)
               = (if c_value (controls s c) \<noteq> getFieldValue s n \<and> \<not> debounce_applies mo
                  then [c_value (controls s c)] else [])
           \<and> assignments (trace s')
               = assignments (trace s)
                 @ (if c_value (controls s c) \<noteq> getFieldValue s n \<and> \<not> debounce_applies mo
                    then [(n, apply_parsers (parsers (nodes s n)) (c_value (controls s c)))]
                    else [])"
proof -
  let ?p = "valueChanges_pipeline c (c_value (controls s c)) (getFieldValue s n) mo"
  from fieldChanges_bound_node [OF assms] obtain "is" s4 old where
    fc: "fieldChanges s (Some n)
           = (case deliver s4 n c (initial_emissions ?p) of
                Inl e \<Rightarrow> Inl e | Inr s5 \<Rightarrow> Inr (is, s5))"
    and fr: "nodes s4 = nodes s" "controls s4 = controls s"
    and sb: "subs s4 = old @ [(last is, ValueSubscription n c ?p)]"
    and tr: "assignments (trace s4) = assignments (trace s)"
    by blast
  show ?thesis
  proof (cases "c_value (controls s c) \<noteq> getFieldValue s n \<and> \<not> debounce_applies mo")
    case True
    have "has_options (nodes s4 n)" using assms(5) fr by simp
    from valueChanges_subscriber_result [OF this, of c "c_value (controls s c)"]
    obtain s' where "valueChanges_subscriber s4 n c (c_value (controls s c)) = Inr s'"
      and "trace s' = trace s4 @ (if shared_control (controls s4 c)
                                  then [PatchValue c (c_value (controls s c))] else [])
             @ [AssignFieldValue n (apply_parsers (parsers (nodes s4 n)) (c_value (controls s c))),
                FieldChangesNext (apply_parsers (parsers (nodes s4 n)) (c_value (controls s c))) n
                  ''valueChanges'']"
      and "subs s' = subs s4"
      by blast
    with True fc fr sb tr show ?thesis
      by (simp add: initial_emissions_pipeline)
  next
    case False
    with fc sb tr show ?thesis
      by (simp add: initial_emissions_pipeline)
  qed
qed

lemma pipeline_debounced:
  assumes "updateOn mo = None \<or> updateOn mo = Some ''change''"
    and "debounce mo = Some d" and "0 < default_ms d"
  shows "debounce_applies mo"
    and "valueChanges_pipeline c cv fv mo = DebounceTime (default_ms d) (ValueChanges c)"
  using assms by (auto simp: valueChanges_pipeline_def debounce_applies_def Let_def)

text \<open>
  Claim C5. For a bound node (key, no child group, control, model options and options
  present) whose \<open>updateOn\<close> is unset or \<open>"change"\<close> and whose \<open>debounce.default\<close> is
  positive, the stream that \<open>fieldChanges\<close> subscribes is the raw change stream of the
  control with the debounce applied, without duplicate suppression and without an initial
  emission: wiring writes nothing. Consequently, for any non-empty run of emissions of the
  control in which each one follows the one before it in less than the interval, the
  subscriber receives exactly one emission, the last value of the run, one interval after
  it, and delivering it returns and writes exactly once onto the node: the last value,
  through the parsers.
\<close>

theorem fieldChanges_debounced:
  assumes "truthy (key (nodes s n))" and "fieldGroup (nodes s n) = None"
    and "formControl (nodes s n) = Some c" and "modelOptions (nodes s n) = Some mo"
    and "has_options (nodes s n)"
    and "updateOn mo = None \<or> updateOn mo = Some ''change''"
    and "debounce mo = Some d" and "0 < default_ms d"
  shows "\<exists>is s'. fieldChanges s (Some n) = Inr (is, s')
           \<and> last (subs s')
               = (last is, ValueSubscription n c (DebounceTime (default_ms d) (ValueChanges c)))
           \<and> assignments (trace s') = assignments (trace s)
           \<and> (\<forall>raw. raw \<noteq> [] \<and> rapid (default_ms d) raw \<longrightarrow>
                 emissions (DebounceTime (default_ms d) (ValueChanges c)) raw
                   = [(fst (last raw) + default_ms d, snd (last raw))]
                 \<and> (\<exists>t. deliver s' n c
                            (map snd (emissions (DebounceTime (default_ms d) (ValueChanges c)) raw))
                          = Inr t
                        \<and> assignments (trace t)
                            = assignments (trace s')
                              @ [(n, apply_parsers (parsers (nodes s n)) (snd (last raw)))]))"
proof -
  let ?p = "valueChanges_pipeline c (c_value (controls s c)) (getFieldValue s n) mo"
  have p: "?p = DebounceTime (default_ms d) (ValueChanges c)"
    using pipeline_debounced(2) [OF assms(6-8)] .
  from fieldChanges_bound_node [OF assms(1-5)] obtain "is" s4 old where
    fc: "fieldChanges s (Some n)
           = (case deliver s4 n c (initial_emissions ?p) of
                Inl e \<Rightarrow> Inl e | Inr s5 \<Rightarrow> Inr (is, s5))"
    and fr: "nodes s4 = nodes s" "controls s4 = controls s"
    and sb: "subs s4 = old @ [(last is, ValueSubscription n c ?p)]"
    and tr: "assignments (trace s4) = assignments (trace s)"
    by blast
  have r: "fieldChanges s (Some n) = Inr (is, s4)"
    using fc p by simp
  have collapse: "emissions (DebounceTime (default_ms d) (ValueChanges c)) raw
                   = [(fst (last raw) + default_ms d, snd (last raw))]
                 \<and> (\<exists>t. deliver s4 n c
                            (map snd (emissions (DebounceTime (default_ms d) (ValueChanges c)) raw))
                          = Inr t
                        \<and> assignments (trace t)
                            = assignments (trace s4)
                              @ [(n, apply_parsers (parsers (nodes s n)) (snd (last raw)))])"
    if "raw \<noteq> [] \<and> rapid (default_ms d) raw" for raw
  proof -
    have e: "emissions (DebounceTime (default_ms d) (ValueChanges c)) raw
               = [(fst (last raw) + default_ms d, snd (last raw))]"
      using that by (simp add: debounceTime_rapid)
    have "has_options (nodes s4 n)" using assms(5) fr by simp
    from valueChanges_subscriber_result [OF this, of c "snd (last raw)"] fr e
    show ?thesis by (auto split: sum.splits)
  qed
  have sb': "last (subs s4)
               = (last is, ValueSubscription n c (DebounceTime (default_ms d) (ValueChanges c)))"
    using sb p by simp
  from collapse tr have all: "\<forall>raw. raw \<noteq> [] \<and> rapid (default_ms d) raw \<longrightarrow>
                 emissions (DebounceTime (default_ms d) (ValueChanges c)) raw
                   = [(fst (last raw) + default_ms d, snd (last raw))]
                 \<and> (\<exists>t. deliver s4 n c
                            (map snd (emissions (DebounceTime (default_ms d) (ValueChanges c)) raw))
                          = Inr t
                        \<and> assignments (trace t)
                            = assignments (trace s4)
                              @ [(n, apply_parsers (parsers (nodes s n)) (snd (last raw)))])"
    by blast
  from r sb' tr all show ?thesis by blast
qed

lemmas example_defs = example_world_def example_node_def example_control_def

theorem fieldChanges_initial_emission_witness:
  "\<exists>is s'. fieldChanges example_world (Some 0) = Inr (is, s')
     \<and> last (subs s')
         = (last is, ValueSubscription 0 0
              (StartWith (JStr ''Al'') (DistinctUntilChanged (ValueChanges 0))))
     \<and> assignments (trace s') = [(0, JStr ''Al'')]"
  using fieldChanges_initial_emission
    [of example_world 0 0 "\<lparr>updateOn = None, debounce = None\<rparr>"]
  by (simp add: example_defs valueChanges_pipeline_def debounce_applies_def getFieldValue_def
      apply_parsers_def trim_parser_def trim_def is_space_def)

theorem fieldChanges_debounced_witness:
  "\<exists>is s' t. fieldChanges example_world_debounced (Some 0) = Inr (is, s')
     \<and> last (subs s') = (last is, ValueSubscription 0 0 (DebounceTime 300 (ValueChanges 0)))
     \<and> emissions (DebounceTime 300 (ValueChanges 0))
          [(0, JStr ''A''), (100, JStr ''Al''), (250, JStr ''Ali '')] = [(550, JStr ''Ali '')]
     \<and> deliver s' 0 0 [JStr ''Ali ''] = Inr t
     \<and> assignments (trace t) = [(0, JStr ''Ali'')]"
proof -
  let ?raw = "[(0::nat, JStr ''A''), (100, JStr ''Al''), (250, JStr ''Ali '')]"
  let ?w = example_world_debounced
  let ?d = "\<lparr>default_ms = 300\<rparr>"
  let ?p = "DebounceTime (default_ms ?d) (ValueChanges 0)"
  have "\<exists>is s'. fieldChanges ?w (Some 0) = Inr (is, s')
           \<and> last (subs s') = (last is, ValueSubscription 0 0 ?p)
           \<and> assignments (trace s') = assignments (trace ?w)
           \<and> (\<forall>raw. raw \<noteq> [] \<and> rapid (default_ms ?d) raw \<longrightarrow>
                 emissions ?p raw = [(fst (last raw) + default_ms ?d, snd (last raw))]
                 \<and> (\<exists>t. deliver s' 0 0 (map snd (emissions ?p raw)) = Inr t
                        \<and> assignments (trace t)
                            = assignments (trace s')
                              @ [(0, apply_parsers (parsers (nodes ?w 0)) (snd (last raw)))]))"
    by (rule fieldChanges_debounced
          [where mo = "\<lparr>updateOn = Some ''change'', debounce = Some \<lparr>default_ms = 300\<rparr>\<rparr>"])
       (simp_all add: example_world_debounced_def example_defs)
  then obtain "is" s' where
    r: "fieldChanges ?w (Some 0) = Inr (is, s')"
    and sb: "last (subs s') = (last is, ValueSubscription 0 0 ?p)"
    and tr: "assignments (trace s') = assignments (trace ?w)"
    and all: "\<forall>raw. raw \<noteq> [] \<and> rapid (default_ms ?d) raw \<longrightarrow>
                 emissions ?p raw = [(fst (last raw) + default_ms ?d, snd (last raw))]
                 \<and> (\<exists>t. deliver s' 0 0 (map snd (emissions ?p raw)) = Inr t
                        \<and> assignments (trace t)
                            = assignments (trace s')
                              @ [(0, apply_parsers (parsers (nodes ?w 0)) (snd (last raw)))])"
    by blast
  have "?raw \<noteq> [] \<and> rapid (default_ms ?d) ?raw" by simp
  with all have
    e: "emissions ?p ?raw = [(fst (last ?raw) + default_ms ?d, snd (last ?raw))]"
    and "\<exists>t. deliver s' 0 0 (map snd (emissions ?p ?raw)) = Inr t
            \<and> assignments (trace t)
                = assignments (trace s')
                  @ [(0, apply_parsers (parsers (nodes ?w 0)) (snd (last ?raw)))]"
    by blast+
  then obtain t where
    d: "deliver s' 0 0 (map snd (emissions ?p ?raw)) = Inr t"
    and a: "assignments (trace t)
       = assignments (trace s')
         @ [(0, apply_parsers (parsers (nodes ?w 0)) (snd (last ?raw)))]"
    by blast
  have d': "deliver s' 0 0 [JStr ''Ali ''] = Inr t"
    using d unfolding e by simp
  have a': "assignments (trace t) = [(0, JStr ''Ali'')]"
    unfolding a tr
    by (simp add: example_world_debounced_def example_defs apply_parsers_def trim_parser_def
        trim_def is_space_def)
  have e': "emissions (DebounceTime 300 (ValueChanges 0)) ?raw = [(550, JStr ''Ali '')]"
    using e by simp
  have sb': "last (subs s') = (last is, ValueSubscription 0 0 (DebounceTime 300 (ValueChanges 0)))"
    using sb by simp
  from r sb' e' d' a' show ?thesis by blast
qed

text \<open>
  Claim C6. For every value \<open>v\<close> that the subscribed stream emits for a bound node (whose
  options are present; the broadcast throws without them), the callback returns, and: the
  parsers are applied to the value in their listed order (none: the value itself; a first
  parser and the rest: the rest applied to what the first returns); the result is written
  onto the node, where the value-read accessor finds it afterwards; and after the write an
  event with this result, the node and the type \<open>"valueChanges"\<close> is broadcast. The calls
  made are these two, after the patch of a control that is shared by several fields.

  The example of section 8: for the node \<open>{type: "input", key: "name"}\<close> with the control
  value \<open>"Al"\<close>, the stored value \<open>"Ali"\<close> and the one parser \<open>(v) => v.trim()\<close>, the initial
  emission of the subscribed stream is \<open>"Al"\<close>, the stored value after the wiring is \<open>"Al"\<close>,
  and one event is broadcast, with the value \<open>"Al"\<close> and the type \<open>"valueChanges"\<close>.
\<close>

theorem valueChanges_subscriber_writes:
  assumes "has_options (nodes s n)"
  shows "(\<exists>s'. valueChanges_subscriber s n c v = Inr s'
            \<and> getFieldValue s' n = apply_parsers (parsers (nodes s n)) v
            \<and> trace s' = trace s @ (if shared_control (controls s c) then [PatchValue c v] else [])
                            @ [AssignFieldValue n (apply_parsers (parsers (nodes s n)) v),
                               FieldChangesNext (apply_parsers (parsers (nodes s n)) v) n
                                 ''valueChanges''])
         \<and> apply_parsers None v = v \<and> apply_parsers (Some []) v = v
         \<and> (\<forall>parserFn fs.
               apply_parsers (Some (parserFn # fs)) v = apply_parsers (Some fs) (parserFn v))
         \<and> initial_emissions
              (valueChanges_pipeline 0 (c_value (controls example_world 0))
                 (getFieldValue example_world 0) \<lparr>updateOn = None, debounce = None\<rparr>)
             = [JStr ''Al'']
         \<and> stored_after (fieldChanges example_world (Some 0)) 0 = Some (JStr ''Al'')
         \<and> broadcast (fieldChanges example_world (Some 0))
             = Some [(JStr ''Al'', 0, ''valueChanges'')]"
proof -
  have 1: "\<exists>s'. valueChanges_subscriber s n c v = Inr s'
            \<and> getFieldValue s' n = apply_parsers (parsers (nodes s n)) v
            \<and> trace s' = trace s @ (if shared_control (controls s c) then [PatchValue c v] else [])
                            @ [AssignFieldValue n (apply_parsers (parsers (nodes s n)) v),
                               FieldChangesNext (apply_parsers (parsers (nodes s n)) v) n
                                 ''valueChanges'']"
    using valueChanges_subscriber_result [OF assms, of c v]
    by (auto simp: getFieldValue_def)
  have 2: "apply_parsers None v = v \<and> apply_parsers (Some []) v = v
         \<and> (\<forall>parserFn fs.
               apply_parsers (Some (parserFn # fs)) v = apply_parsers (Some fs) (parserFn v))"
    by (simp add: apply_parsers_def)
  have 3: "initial_emissions
              (valueChanges_pipeline 0 (c_value (controls example_world 0))
                 (getFieldValue example_world 0) \<lparr>updateOn = None, debounce = None\<rparr>)
             = [JStr ''Al'']"
    by (simp add: example_defs valueChanges_pipeline_def debounce_applies_def getFieldValue_def)
  have 4: "stored_after (fieldChanges example_world (Some 0)) 0 = Some (JStr ''Al'')"
    by (simp add: stored_after_def example_defs wiring_defs trim_parser_def trim_def is_space_def)
  have 5: "broadcast (fieldChanges example_world (Some 0))
             = Some [(JStr ''Al'', 0, ''valueChanges'')]"
    by (simp add: broadcast_def example_defs wiring_defs trim_parser_def trim_def is_space_def)
  from 1 2 3 4 5 show ?thesis by blast
qed

theorem valueChanges_subscriber_writes_witness:
  "\<exists>s'. valueChanges_subscriber example_world 0 0 (JStr '' Al '') = Inr s'
     \<and> getFieldValue s' 0 = JStr ''Al''
     \<and> trace s' = [AssignFieldValue 0 (JStr ''Al''),
                    FieldChangesNext (JStr ''Al'') 0 ''valueChanges'']"
  using valueChanges_subscriber_writes [of example_world 0 0 "JStr '' Al ''"]
  by (simp add: example_defs shared_control_def apply_parsers_def trim_parser_def trim_def
      is_space_def)

subsection \<open>The hook dispatcher on a changed node\<close>

lemma same_component_refl [simp]: "same_component s s"
  by (simp add: same_component_def)

lemma same_component_trans: "same_component a b \<Longrightarrow> same_component b c \<Longrightarrow> same_component a c"
  by (simp add: same_component_def)

lemma unsubscribe_all_same [simp]: "same_component s (unsubscribe_all s is)"
  unfolding unsubscribe_all_def
  by (induction "is" arbitrary: s)
     (auto simp: unsubscribe_def emit_def same_component_def)

lemma unsubscribe_all_fields [simp]:
  "field (unsubscribe_all s is) = field s"
  "containerRef (unsubscribe_all s is) = containerRef s"
  "hostObservers (unsubscribe_all s is) = hostObservers s"
  "hooksObservers (unsubscribe_all s is) = hooksObservers s"
  "valueChangesUnsubscribe (unsubscribe_all s is) = valueChangesUnsubscribe s"
  "componentRefs (unsubscribe_all s is) = componentRefs s"
  unfolding unsubscribe_all_def
  by (induction "is" arbitrary: s) (simp_all add: unsubscribe_def emit_def)

lemma unsubscribe_all_trace:
  "trace (unsubscribe_all s is) = trace s @ map Unsubscribe is"
  unfolding unsubscribe_all_def
  by (induction "is" arbitrary: s) (simp_all add: unsubscribe_def emit_def)

lemma unsubscribe_all_subs:
  "subs (unsubscribe_all s is) = filter (\<lambda>p. fst p \<notin> set is) (subs s)"
  unfolding unsubscribe_all_def
  by (induction "is" arbitrary: s) (auto simp add: unsubscribe_def emit_def intro: filter_cong)

lemma valueChanges_subscriber_same:
  "valueChanges_subscriber s n c v = Inr s' \<Longrightarrow> same_component s s'"
  by (auto simp: valueChanges_subscriber_def assignFieldValue_def patchValue_def emit_def
      Let_def same_component_def split: if_splits)

lemma deliver_same: "deliver s n c vs = Inr s' \<Longrightarrow> same_component s s'"
  by (induction vs arbitrary: s)
     (auto split: sum.splits dest: valueChanges_subscriber_same intro: same_component_trans)

lemma fieldChanges_same:
  assumes "fieldChanges s fld = Inr (is, s')"
  shows "same_component s s'"
  using assms
  by (cases fld)
     (auto simp: fieldChanges_def subscribe_def emit_def Let_def same_component_def
        unsubscribe_all_frame
        split: if_splits option.splits sum.splits dest!: deliver_same)

lemma triggerHook_fieldChanges_same:
  "triggerHook_fieldChanges s name changes = Inr s1 \<Longrightarrow> same_component s s1"
  by (auto simp: triggerHook_fieldChanges_def same_component_def
      split: if_splits option.splits sum.splits prod.splits dest!: fieldChanges_same)

lemma triggerHook_hooks_same: "same_component s (triggerHook_hooks s name changes)"
  by (auto simp: triggerHook_hooks_def subscribe_def emit_def Let_def same_component_def
      split: option.splits)

lemma renderHostBinding_same: "same_component s (renderHostBinding s)"
  by (auto simp: renderHostBinding_def subscribe_def emit_def Let_def same_component_def
      hide_observer_def className_observer_def unsubscribe_all_frame split: option.splits)

lemma resetRefs_same: "resetRefs s fld = Inr s' \<Longrightarrow> same_component s s'"
  by (auto simp: resetRefs_def set_componentRefs_def same_component_def split: option.splits)

lemma resetRefs_trace: "resetRefs s fld = Inr s' \<Longrightarrow> trace s' = trace s"
  by (auto simp: resetRefs_def set_componentRefs_def split: option.splits)

lemma renderHostBinding_subs:
  assumes "field s = Some n"
  shows "hostObservers (renderHostBinding s) = [next_sub s, Suc (next_sub s)]"
    and "subs (renderHostBinding s)
           = filter (\<lambda>p. fst p \<notin> set (hostObservers s)) (subs s)
             @ [(next_sub s, HostObserver n ''hide''),
                (Suc (next_sub s), HostObserver n ''className'')]"
    and "\<exists>rest. trace (renderHostBinding s)
           = trace s @ map Unsubscribe (hostObservers s)
             @ Subscribe (next_sub s) (HostObserver n ''hide'') # rest"
  using assms
  by (auto simp: renderHostBinding_def subscribe_def emit_def Let_def
      hide_observer_def className_observer_def unsubscribe_all_frame unsubscribe_all_trace
      unsubscribe_all_subs)

lemma renderField_own_container_trace:
  assumes "renderField s (containerRef s) f (Some wps) = Inr s'"
  shows "\<exists>rest. trace s' = trace s @ Clear (containerRef s) # rest"
proof -
  from renderField_trace_extends [OF assms] obtain s1 rest where
    "reset_own_container s (containerRef s) = Inr s1" "trace s' = trace s1 @ rest"
    by blast
  moreover from this(1) have "trace s1 = trace s @ [Clear (containerRef s)]"
    by (auto simp: reset_own_container_def resetRefs_def set_componentRefs_def clear_def emit_def
        split: option.splits)
  ultimately show ?thesis by simp
qed

text \<open>\<open>resetRefs\<close> on a previous node, lines 153 to 163, in a component that has a node: the
  list of the previous node loses the references the component holds when the previous
  node has a list (line 156); when it has none, the empty list is defined on the
  component's node (line 158).\<close>

lemma resetRefs_previous:
  assumes "field s = Some n"
  shows "\<exists>s4. resetRefs s (Some p) = Inr s4 \<and> componentRefs s4 = [] \<and> trace s4 = trace s
           \<and> nodes s4
               = (case f_componentRefs (nodes s p) of
                    Some refs \<Rightarrow>
                      (nodes s)(p := (nodes s p)
                         \<lparr>f_componentRefs :=
                            Some (filter (\<lambda>ref. ref \<notin> set (componentRefs s)) refs)\<rparr>)
                  | None \<Rightarrow> (nodes s)(n := (nodes s n)\<lparr>f_componentRefs := Some []\<rparr>))"
  using assms by (simp add: resetRefs_def set_componentRefs_def split: option.splits)

text \<open>
  The steps of \<open>triggerHook('onChanges', changes)\<close> when \<open>changes.field\<close> is set, on a
  component whose node is \<open>n\<close>. Let \<open>s2\<close> be the state after the first two statements of
  the function (the re-wiring of the value subscriptions and the hook callback). The rest of
  the call is three steps in sequence, each on the state the one before it leaves: first
  \<open>renderHostBinding\<close>, which cancels the old host observers and registers the two new ones
  on the node's \<open>hide\<close> and \<open>className\<close>; then \<open>resetRefs\<close> on the previous node
  \<open>changes.field.previousValue\<close>, which makes no call; then \<open>renderField\<close> on the component's
  own container with the node \<open>n\<close> and its wrapper sequence, the empty sequence when the node
  defines none. In the trace of a call that returns, the calls of the host binding come
  first and the calls of the render, which start with the clearing of the container, come
  after them.
\<close>

lemma triggerHook_changed_steps:
  assumes chg: "sc_field chs = Some chg" and n: "field s = Some n"
    and s1: "triggerHook_fieldChanges s ''onChanges'' (Some chs) = Inr s1"
    and s2: "s2 = triggerHook_hooks s1 ''onChanges'' (Some chs)"
    and s3: "s3 = renderHostBinding s2"
  shows "triggerHook s ''onChanges'' (Some chs)
           = (case resetRefs s3 (sc_previousValue chg) of
                Inl e \<Rightarrow> Inl e
              | Inr s4 \<Rightarrow>
                  renderField s4 (containerRef s) (Some n)
                    (Some (case wrappers (nodes s n) of None \<Rightarrow> [] | Some ws \<Rightarrow> ws)))
         \<and> hostObservers s3 = [next_sub s2, Suc (next_sub s2)]
         \<and> subs s3 = filter (\<lambda>p. fst p \<notin> set (hostObservers s2)) (subs s2)
                       @ [(next_sub s2, HostObserver n ''hide''),
                          (Suc (next_sub s2), HostObserver n ''className'')]
         \<and> (\<exists>hb. trace s3 = trace s2 @ map Unsubscribe (hostObservers s2)
                                @ Subscribe (next_sub s2) (HostObserver n ''hide'') # hb)
         \<and> (\<forall>p. sc_previousValue chg = Some p \<longrightarrow>
               (\<exists>s4. resetRefs s3 (Some p) = Inr s4 \<and> componentRefs s4 = []
                  \<and> trace s4 = trace s3
                  \<and> nodes s4
                      = (case f_componentRefs (nodes s3 p) of
                           Some refs \<Rightarrow>
                             (nodes s3)(p := (nodes s3 p)
                                \<lparr>f_componentRefs :=
                                   Some (filter (\<lambda>ref. ref \<notin> set (componentRefs s3)) refs)\<rparr>)
                         | None \<Rightarrow>
                             (nodes s3)(n := (nodes s3 n)\<lparr>f_componentRefs := Some []\<rparr>))))
         \<and> (\<forall>s'. triggerHook s ''onChanges'' (Some chs) = Inr s' \<longrightarrow>
               (\<exists>rest. trace s' = trace s3 @ Clear (containerRef s) # rest))"
proof -
  have c12: "same_component s s2"
    using triggerHook_fieldChanges_same [OF s1] triggerHook_hooks_same [of s1] s2
    by (auto intro: same_component_trans)
  then have n2: "field s2 = Some n" by (simp add: same_component_def n)
  have c3: "same_component s s3"
    using c12 renderHostBinding_same [of s2] s3 by (auto intro: same_component_trans)
  then have n3: "field s3 = Some n" by (simp add: same_component_def n)
  have eq: "triggerHook s ''onChanges'' (Some chs)
           = (case resetRefs s3 (sc_previousValue chg) of
                Inl e \<Rightarrow> Inl e
              | Inr s4 \<Rightarrow>
                  renderField s4 (containerRef s) (Some n)
                    (Some (case wrappers (nodes s n) of None \<Rightarrow> [] | Some ws \<Rightarrow> ws)))"
  proof (cases "resetRefs s3 (sc_previousValue chg)")
    case (Inl e)
    then show ?thesis
      using s1 s2 s3 chg by (simp add: triggerHook_def triggerHook_render_def Let_def)
  next
    case (Inr s4)
    have c4: "same_component s s4"
      using c3 resetRefs_same [OF Inr] by (auto intro: same_component_trans)
    have "renderField s4 (containerRef s4) (field s4) (field_wrappers s4)
            = renderField s4 (containerRef s) (Some n)
                (Some (case wrappers (nodes s n) of None \<Rightarrow> [] | Some ws \<Rightarrow> ws))"
      using c4 n by (cases "wrappers (nodes s n)") (simp_all add: same_component_def field_wrappers_def)
    then show ?thesis
      using s1 s2 s3 chg Inr by (simp add: triggerHook_def triggerHook_render_def Let_def)
  qed
  have hb: "hostObservers s3 = [next_sub s2, Suc (next_sub s2)]"
    "subs s3 = filter (\<lambda>p. fst p \<notin> set (hostObservers s2)) (subs s2)
                       @ [(next_sub s2, HostObserver n ''hide''),
                          (Suc (next_sub s2), HostObserver n ''className'')]"
    "\<exists>hb. trace s3 = trace s2 @ map Unsubscribe (hostObservers s2)
                                @ Subscribe (next_sub s2) (HostObserver n ''hide'') # hb"
    using renderHostBinding_subs [OF n2] s3 by simp_all
  have rr: "\<forall>p. sc_previousValue chg = Some p \<longrightarrow>
               (\<exists>s4. resetRefs s3 (Some p) = Inr s4 \<and> componentRefs s4 = []
                  \<and> trace s4 = trace s3
                  \<and> nodes s4
                      = (case f_componentRefs (nodes s3 p) of
                           Some refs \<Rightarrow>
                             (nodes s3)(p := (nodes s3 p)
                                \<lparr>f_componentRefs :=
                                   Some (filter (\<lambda>ref. ref \<notin> set (componentRefs s3)) refs)\<rparr>)
                         | None \<Rightarrow>
                             (nodes s3)(n := (nodes s3 n)\<lparr>f_componentRefs := Some []\<rparr>)))"
    using resetRefs_previous [OF n3] by blast
  have tr: "\<forall>s'. triggerHook s ''onChanges'' (Some chs) = Inr s' \<longrightarrow>
               (\<exists>rest. trace s' = trace s3 @ Clear (containerRef s) # rest)"
  proof (intro allI impI)
    fix s' assume r: "triggerHook s ''onChanges'' (Some chs) = Inr s'"
    with eq obtain s4 where s4: "resetRefs s3 (sc_previousValue chg) = Inr s4"
      and rf: "renderField s4 (containerRef s) (Some n)
                 (Some (case wrappers (nodes s n) of None \<Rightarrow> [] | Some ws \<Rightarrow> ws)) = Inr s'"
      by (auto split: sum.splits)
    have "containerRef s4 = containerRef s"
      using c3 resetRefs_same [OF s4] by (simp add: same_component_def)
    with renderField_own_container_trace [of s4 "Some n" _ s'] rf resetRefs_trace [OF s4]
    show "\<exists>rest. trace s' = trace s3 @ Clear (containerRef s) # rest" by simp
  qed
  from eq hb rr tr show ?thesis by blast
qed


subsection \<open>Teardown\<close>

lemma unsubscribe_all_Nil [simp]: "unsubscribe_all s [] = s"
  by (simp add: unsubscribe_all_def)

lemma unsubscribe_all_Cons: "unsubscribe_all s (i # is) = unsubscribe_all (unsubscribe s i) is"
  by (simp add: unsubscribe_all_def)

lemma unsubscribe_all_eq:
  "unsubscribe_all s is
     = s\<lparr>subs := filter (\<lambda>p. fst p \<notin> set is) (subs s), trace := trace s @ map Unsubscribe is\<rparr>"
proof (induction "is" arbitrary: s)
  case Nil
  then show ?case by simp
next
  case (Cons i "is")
  have "filter (\<lambda>p. fst p \<notin> set is) (filter (\<lambda>p. fst p \<noteq> i) (subs s))
          = filter (\<lambda>p. fst p \<notin> set (i # is)) (subs s)"
    by (auto intro: filter_cong)
  then show ?case
    unfolding unsubscribe_all_Cons Cons.IH
    by (simp add: unsubscribe_def emit_def)
qed










text \<open>Every lifecycle method keeps the component holding its registrations; a fresh
  component has none.\<close>

lemma renderField_registrations:
  assumes "renderField s c f ws = Inr s'"
  shows "only_wrapper_observers_added s s'"
proof -
  have "\<exists>wps. renderField s c f (Some wps) = Inr s'"
  proof (cases ws)
    case None
    then have "renderField s c f (Some []) = Inr s'" using assms by simp
    then show ?thesis by blast
  next
    case (Some wps)
    then show ?thesis using assms by blast
  qed
  then obtain wps where r: "renderField s c f (Some wps) = Inr s'" ..
  have "\<exists>s1. reset_own_container s c = Inr s1 \<and> only_wrapper_observers_added s1 s'"
    by (rule renderField_Some_rel [where R = only_wrapper_observers_added, OF _ _ _ _ _ _ r])
       (auto simp: only_wrapper_observers_added_def established_def reset_own_container_def
          resetRefs_def set_componentRefs_def clear_def renderType_def getType_def
          createComponent_def attachComponentRef_def subscribe_def emit_def Let_def
          split: if_splits option.splits sum.splits)
  then show ?thesis
    by (auto simp: only_wrapper_observers_added_def established_def reset_own_container_def
          resetRefs_def set_componentRefs_def clear_def emit_def
          split: if_splits option.splits sum.splits)
qed

lemma deliver_subs:
  "deliver s n c vs = Inr s' \<Longrightarrow>
     subs s' = subs s \<and> hostObservers s' = hostObservers s
     \<and> hooksObservers s' = hooksObservers s
     \<and> valueChangesUnsubscribe s' = valueChangesUnsubscribe s"
  by (induction vs arbitrary: s)
     (auto simp: valueChanges_subscriber_def assignFieldValue_def patchValue_def emit_def Let_def
        split: sum.splits if_splits)

lemma fieldChanges_registrations:
  assumes "fieldChanges s fld = Inr (is, s')"
  shows "hostObservers s' = hostObservers s \<and> hooksObservers s' = hooksObservers s
         \<and> (\<forall>p\<in>set (subs s').
               (p \<in> set (subs s) \<and> fst p \<notin> set (valueChangesUnsubscribe s)) \<or> fst p \<in> set is)"
  using assms
  by (cases fld)
     (auto simp: fieldChanges_def subscribe_def emit_def Let_def unsubscribe_all_eq established_def
        split: if_splits option.splits sum.splits dest!: deliver_subs)

lemma rewired_holds:
  assumes "holds_registrations s"
    and "hostObservers s' = hostObservers s \<and> hooksObservers s' = hooksObservers s
         \<and> (\<forall>p\<in>set (subs s').
               (p \<in> set (subs s) \<and> fst p \<notin> set (valueChangesUnsubscribe s)) \<or> fst p \<in> set is)"
  shows "holds_registrations (s'\<lparr>valueChangesUnsubscribe := is\<rparr>)"
  unfolding holds_registrations_def established_def
proof
  fix p assume p: "p \<in> set (subs (s'\<lparr>valueChangesUnsubscribe := is\<rparr>))"
  then have "(p \<in> set (subs s) \<and> fst p \<notin> set (valueChangesUnsubscribe s)) \<or> fst p \<in> set is"
    using assms(2) by simp
  then show "is_wrapper_observer (snd p)
         \<or> fst p \<in> set (hostObservers (s'\<lparr>valueChangesUnsubscribe := is\<rparr>)
                         @ hooksObservers (s'\<lparr>valueChangesUnsubscribe := is\<rparr>)
                         @ valueChangesUnsubscribe (s'\<lparr>valueChangesUnsubscribe := is\<rparr>))"
  proof
    assume a: "p \<in> set (subs s) \<and> fst p \<notin> set (valueChangesUnsubscribe s)"
    with assms(1) have "is_wrapper_observer (snd p) \<or> fst p \<in> set (established s)"
      by (simp add: holds_registrations_def)
    with a assms(2) show ?thesis by (auto simp: established_def)
  next
    assume "fst p \<in> set is"
    then show ?thesis by simp
  qed
qed

lemma triggerHook_fieldChanges_holds:
  assumes "triggerHook_fieldChanges s name changes = Inr s1" and "holds_registrations s"
  shows "holds_registrations s1"
  using assms
  by (auto simp: triggerHook_fieldChanges_def
      split: if_splits option.splits sum.splits prod.splits
      dest!: fieldChanges_registrations intro: rewired_holds)

lemma triggerHook_hooks_holds:
  "holds_registrations s \<Longrightarrow> holds_registrations (triggerHook_hooks s name changes)"
  by (auto simp: triggerHook_hooks_def holds_registrations_def established_def subscribe_def
      emit_def Let_def split: option.splits)

lemma renderHostBinding_holds:
  "holds_registrations s \<Longrightarrow> holds_registrations (renderHostBinding s)"
  by (auto simp: renderHostBinding_def holds_registrations_def established_def subscribe_def
      emit_def Let_def hide_observer_def className_observer_def unsubscribe_all_eq
      split: option.splits)

lemma resetRefs_holds:
  "resetRefs s fld = Inr s' \<Longrightarrow> holds_registrations s \<Longrightarrow> holds_registrations s'"
  by (auto simp: resetRefs_def set_componentRefs_def holds_registrations_def established_def
      split: option.splits)

lemma renderField_holds:
  "renderField s c f ws = Inr s' \<Longrightarrow> holds_registrations s \<Longrightarrow> holds_registrations s'"
  by (drule renderField_registrations)
     (auto simp: only_wrapper_observers_added_def holds_registrations_def)

lemma triggerHook_holds:
  assumes "triggerHook s name changes = Inr s'" and "holds_registrations s"
  shows "holds_registrations s'"
proof -
  from assms(1) obtain s1 where
    s1: "triggerHook_fieldChanges s name changes = Inr s1"
    and r: "triggerHook_render (triggerHook_hooks s1 name changes) name changes = Inr s'"
    by (auto simp: triggerHook_def split: sum.splits)
  have h2: "holds_registrations (triggerHook_hooks s1 name changes)"
    using triggerHook_fieldChanges_holds [OF s1 assms(2)] by (rule triggerHook_hooks_holds)
  show ?thesis
    using r h2
    by (auto simp: triggerHook_render_def Let_def split: if_splits option.splits sum.splits
        dest: renderHostBinding_holds resetRefs_holds renderField_holds)
qed

lemma fresh_component_holds: "subs s = [] \<Longrightarrow> holds_registrations s"
  by (simp add: holds_registrations_def)




end
